theory Spec2Isabelle
  imports Complex_Main "HOL-Library.Signed_Division" "HOL-Library.Multiset"
begin

section \<open>The load-test client of the image server (load-test/client.go)\<close>

text \<open>
  The program is a Go binary.  Its integers are 64 bits wide (\<^verbatim>\<open>int\<close>, \<^verbatim>\<open>int64\<close> and
  \<^verbatim>\<open>time.Duration\<close>, a count of nanoseconds).  They are modelled as \<^typ>\<open>int\<close> with
  the two's complement wrap-around written out wherever the source computes with them;
  Go's \<^verbatim>\<open>/\<close> truncates towards zero, which is \<open>sdiv\<close>.  Lengths and counters that only
  count elements of a slice are \<^typ>\<open>nat\<close>.
\<close>

subsection \<open>Machine integers\<close>

definition wrap64 :: "int \<Rightarrow> int" where
  "wrap64 k = (k + 2 ^ 63) mod 2 ^ 64 - 2 ^ 63"

definition int64_mul :: "int \<Rightarrow> int \<Rightarrow> int" where
  "int64_mul a b = wrap64 (a * b)"

definition int64_add :: "int \<Rightarrow> int \<Rightarrow> int" where
  "int64_add a b = wrap64 (a + b)"

definition int64_div :: "int \<Rightarrow> int \<Rightarrow> int" where
  "int64_div a b = wrap64 (a sdiv b)"

text \<open>\<^verbatim>\<open>d.Nanoseconds() / 1000000\<close>: a duration in whole milliseconds.\<close>

definition millis :: "int \<Rightarrow> int" where
  "millis d = int64_div d 1000000"

text \<open>
  \<^verbatim>\<open>rand.Intn(n)\<close> returns a number of \<open>[0, n)\<close>.  The generator's next raw value
  is an input \<open>r\<close> of the model; every value below \<open>n\<close> is the result for some \<open>r\<close>.
\<close>

definition intn :: "nat \<Rightarrow> nat \<Rightarrow> nat" where
  "intn r n = r mod n"

subsection \<open>Errors and panics\<close>

text \<open>
  A Go \<^verbatim>\<open>error\<close> value.  The constructors name where the value comes from; the
  message is what \<^verbatim>\<open>Error()\<close> returns.  Errors of the libraries (transport, file system,
  JSON) carry their message.
\<close>

datatype error =
    TransportError string
  | IOError string
  | DecodeError string
  | UnexpectedStatus int
  | PageContentMismatch
  | EmptyBody
  | NoDownloadTargets
  | NoFixturesFound

datatype panic = IndexOutOfRange | DivideByZero | IntnInvalidArgument | NonPositiveInterval

definition digit :: "nat \<Rightarrow> char" where
  "digit d = ''0123456789'' ! d"

function digits :: "nat \<Rightarrow> string" where
  "digits n = (if n < 10 then [digit n] else digits (n div 10) @ [digit (n mod 10)])"
  by pat_completeness auto
termination
  by (relation "measure id") auto

declare digits.simps [simp del]

text \<open>The verb \<^verbatim>\<open>%d\<close> of \<^verbatim>\<open>fmt\<close>.\<close>

definition fmt_d :: "int \<Rightarrow> string" where
  "fmt_d k = (if k < 0 then CHR ''-'' # digits (nat (- k)) else digits (nat k))"

fun error_message :: "error \<Rightarrow> string" where
  "error_message (TransportError m) = m"
| "error_message (IOError m) = m"
| "error_message (DecodeError m) = m"
| "error_message (UnexpectedStatus c) = ''unexpected status code: '' @ fmt_d c"
| "error_message PageContentMismatch = ''page content does not match: UiFrontend''"
| "error_message EmptyBody = ''download returned empty body''"
| "error_message NoDownloadTargets = ''no download urls found''"
| "error_message NoFixturesFound = ''no image files found''"

subsection \<open>Outcomes and the summary of a reporting window\<close>

text \<open>\<^verbatim>\<open>type report struct { time time.Duration; err error }\<close>\<close>

record report =
  time :: int
  err :: "error option"

text \<open>
  What \<^verbatim>\<open>logReports\<close> writes to the log.  The summary line holds the name, the number of
  reports and the length of the interval (the operands of the floating-point quotient
  \<^verbatim>\<open>req/s\<close>, which is not computed here) and, for a non-empty window, the average and
  the p99 in milliseconds and the number of errors.
\<close>

datatype log_line =
    SummaryLine string nat int "(int \<times> int \<times> nat) option"
  | ErrorLine string string
  | ErrorTimesLine string string nat
  | StartLine string int
  | RampupDoneLine string

text \<open>
  \<^verbatim>\<open>errors[msg]++\<close> on the histogram of error messages.  Go leaves the order in which
  \<^verbatim>\<open>range\<close> visits a map open; the model keeps the messages in the order of their first
  occurrence.
\<close>

fun bump :: "(string \<times> nat) list \<Rightarrow> string \<Rightarrow> (string \<times> nat) list" where
  "bump [] k = [(k, 1)]"
| "bump ((k', n) # m) k = (if k' = k then (k', n + 1) # m else (k', n) # bump m k)"

text \<open>The first loop of \<^verbatim>\<open>logReports\<close>: total time in milliseconds and the error tally.\<close>

fun tally :: "report list \<Rightarrow> int \<times> (string \<times> nat) list \<times> nat
    \<Rightarrow> int \<times> (string \<times> nat) list \<times> nat" where
  "tally [] acc = acc"
| "tally (r # rs) (totalTime, errors, totalErrors) =
     (let totalTime' = int64_add totalTime (millis (time r)) in
      case err r of
        None \<Rightarrow> tally rs (totalTime', errors, totalErrors)
      | Some e \<Rightarrow> tally rs (totalTime', bump errors (error_message e), totalErrors + 1))"

definition error_line :: "string \<Rightarrow> string \<times> nat \<Rightarrow> log_line" where
  "error_line name e = (if snd e = 1 then ErrorLine name (fst e) else ErrorTimesLine name (fst e) (snd e))"

text \<open>\<^verbatim>\<open>p99 := len(reports) * 99 / 100\<close>, on Go's 64-bit \<^verbatim>\<open>int\<close>.\<close>

definition p99_index :: "nat \<Rightarrow> int" where
  "p99_index n = int64_div (int64_mul (int n) 99) 100"

text \<open>
  \<^verbatim>\<open>sort.Slice\<close> orders the reports by \<^verbatim>\<open>time\<close>; it is not stable, and the model takes
  the stable insertion sort \<^const>\<open>sort_key\<close>.  \<^verbatim>\<open>logReports\<close> reads only the \<^verbatim>\<open>time\<close> of
  the sorted slice, which is the same for every sorted permutation
  (lemma \<open>sorted_times_unique\<close> below).  Indexing the slice out of range panics.
\<close>

definition logReports :: "string \<Rightarrow> int \<Rightarrow> report list \<Rightarrow> panic + log_line list" where
  "logReports name tick reports =
     (case tally reports (0, [], 0) of (totalTime, errors, totalErrors) \<Rightarrow>
      let sorted_reports = sort_key time reports;
          n = length sorted_reports
      in if n > 0 then
           (let avg = int64_div totalTime (int n);
                p99 = p99_index n
            in if 0 \<le> p99 \<and> p99 < int n
               then Inr (SummaryLine name n tick
                          (Some (avg, millis (time (sorted_reports ! nat p99)), totalErrors))
                         # map (error_line name) errors)
               else Inl IndexOutOfRange)
         else Inr (SummaryLine name n tick None # map (error_line name) errors))"

text \<open>The p99 of the summary line a log starts with, when it has one.\<close>

fun reported_p99 :: "panic + log_line list \<Rightarrow> int option" where
  "reported_p99 (Inr (SummaryLine _ _ _ (Some (_, p, _)) # _)) = Some p"
| "reported_p99 _ = None"

subsection \<open>The result reporter\<close>

text \<open>
  The \<^verbatim>\<open>select\<close> loop of \<^verbatim>\<open>reporter\<close> takes one ready case at a time; a run of the
  goroutine is the list of the cases it took.  \<open>TickEv d\<close> is a tick of the ten-second
  ticker, \<open>d\<close> being \<^verbatim>\<open>time.Since(start)\<close> at that moment.  \<open>DoneEv\<close> is the case
  \<^verbatim>\<open><-done\<close>, which leaves the loop.  An empty list is a goroutine still waiting.
\<close>

datatype reporter_event = DoneEv | ReportEv report | TickEv int

fun reporter_loop :: "string \<Rightarrow> report list \<Rightarrow> reporter_event list \<Rightarrow> panic + log_line list" where
  "reporter_loop name reports [] = Inr []"
| "reporter_loop name reports (DoneEv # evs) = Inr []"
| "reporter_loop name reports (ReportEv r # evs) = reporter_loop name (reports @ [r]) evs"
| "reporter_loop name reports (TickEv d # evs) =
     (case logReports name d reports of
        Inl p \<Rightarrow> Inl p
      | Inr ls \<Rightarrow>
          (case reporter_loop name [] evs of
             Inl p \<Rightarrow> Inl p
           | Inr ls' \<Rightarrow> Inr (ls @ ls')))"

definition reporter :: "string \<Rightarrow> reporter_event list \<Rightarrow> panic + log_line list" where
  "reporter name evs = reporter_loop name [] evs"

subsection \<open>The ring of discovered identifiers\<close>

text \<open>
  \<^verbatim>\<open>downloadChan := make(chan string, 1000)\<close>: a buffered channel, first in first out.
  Every operation of the program on it stands in a \<^verbatim>\<open>select\<close> with a \<^verbatim>\<open>default\<close> case,
  so no goroutine ever waits on it and its state is its buffer.  A send with the buffer
  full and a receive with the buffer empty take the \<^verbatim>\<open>default\<close> case.
\<close>

record chan =
  buf :: "string list"
  cap :: nat

definition make_chan :: "nat \<Rightarrow> chan" where
  "make_chan n = \<lparr>buf = [], cap = n\<rparr>"

text \<open>\<^verbatim>\<open>select { case ch <- x: default: }\<close>; the flag tells whether the send happened.\<close>

definition try_send :: "chan \<Rightarrow> string \<Rightarrow> chan \<times> bool" where
  "try_send ch x = (if length (buf ch) < cap ch then (ch\<lparr>buf := buf ch @ [x]\<rparr>, True) else (ch, False))"

text \<open>\<^verbatim>\<open>select { case x = <-ch: default: }\<close>\<close>

definition try_recv :: "chan \<Rightarrow> chan \<times> string option" where
  "try_recv ch = (case buf ch of [] \<Rightarrow> (ch, None) | x # xs \<Rightarrow> (ch\<lparr>buf := xs\<rparr>, Some x))"

subsection \<open>The world outside the process\<close>

text \<open>
  The calls a client makes into the libraries, as inputs of the model: what the target
  answers to a request, and what each fallible library call returns.  The functions
  return the new state of the ring, the requests sent (in order) and the \<^verbatim>\<open>error\<close>.
\<close>

datatype request =
    Get string
  | PostForm string string
  | PostMultipart string "(string \<times> string) list" string string

text \<open>A response: \<^verbatim>\<open>resp.StatusCode\<close> and the result of \<^verbatim>\<open>ioutil.ReadAll(resp.Body)\<close>.\<close>

record response =
  status_code :: int
  read_body :: "error + string"

record world =
  http :: "request \<Rightarrow> error + response"
  write_field :: "string \<Rightarrow> string \<Rightarrow> error option"
  json_marshal :: "string list \<Rightarrow> error + string"
  create_form_file :: "string \<Rightarrow> error option"
  os_open :: "string \<Rightarrow> error option"
  io_copy :: "string \<Rightarrow> error + string"
  json_unmarshal :: "string \<Rightarrow> error + string list"

subsection \<open>Paths (path/filepath, slash-separated)\<close>

text \<open>
  \<^verbatim>\<open>filepath.Ext\<close>: the suffix from the last dot of the last element, empty without
  one.  The scan runs from the end of the path and stops at a separator.
\<close>

fun ext_scan :: "string \<Rightarrow> string \<Rightarrow> string" where
  "ext_scan [] acc = []"
| "ext_scan (c # cs) acc =
     (if c = CHR ''/'' then []
      else if c = CHR ''.'' then c # acc
      else ext_scan cs (c # acc))"

definition ext :: "string \<Rightarrow> string" where
  "ext p = ext_scan (rev p) []"

fun split_slash :: "string \<Rightarrow> string list" where
  "split_slash [] = [[]]"
| "split_slash (c # cs) =
     (if c = CHR ''/'' then [] # split_slash cs
      else (case split_slash cs of [] \<Rightarrow> [[c]] | e # es \<Rightarrow> (c # e) # es))"

fun join_slash :: "string list \<Rightarrow> string" where
  "join_slash [] = []"
| "join_slash [e] = e"
| "join_slash (e # es) = e @ CHR ''/'' # join_slash es"

text \<open>
  \<^verbatim>\<open>filepath.Clean\<close>, element by element: empty elements and \<^verbatim>\<open>.\<close> are dropped, \<^verbatim>\<open>..\<close>
  removes the element before it, is dropped at the root and is kept at the start of a
  path that is not rooted.  The elements kept so far are held last first.
\<close>

definition clean_elem :: "bool \<Rightarrow> string \<Rightarrow> string list \<Rightarrow> string list" where
  "clean_elem rooted e out =
     (if e = [] \<or> e = ''.'' then out
      else if e = ''..'' then
        (case out of
           [] \<Rightarrow> if rooted then [] else [''..'']
         | x # xs \<Rightarrow> if x = ''..'' then ''..'' # out else xs)
      else e # out)"

definition clean :: "string \<Rightarrow> string" where
  "clean p =
     (if p = [] then ''.''
      else
        let rooted = (hd p = CHR ''/'');
            out = fold (clean_elem rooted) (split_slash p) [];
            s = (if rooted then ''/'' else []) @ join_slash (rev out)
        in if s = [] then ''.'' else s)"

text \<open>\<^verbatim>\<open>filepath.Dir\<close>: all but the last element of the path, cleaned.\<close>

definition dir :: "string \<Rightarrow> string" where
  "dir p = clean (rev (dropWhile (\<lambda>c. c \<noteq> CHR ''/'') (rev p)))"

text \<open>\<^verbatim>\<open>filepath.Base\<close>: the last element of the path, trailing slashes removed first.\<close>

definition base :: "string \<Rightarrow> string" where
  "base p =
     (if p = [] then ''.''
      else
        let p1 = rev (dropWhile (\<lambda>c. c = CHR ''/'') (rev p));
            p2 = rev (takeWhile (\<lambda>c. c \<noteq> CHR ''/'') (rev p1))
        in if p2 = [] then ''/'' else p2)"

subsection \<open>The workload catalog\<close>

text \<open>\<^verbatim>\<open>type image struct { path string; tag string }\<close>\<close>

record image =
  path :: string
  tag :: string

text \<open>
  \<^verbatim>\<open>filepath.Walk\<close> calls the function it is given once per file and directory, in
  lexical order, with the path and either the file's info or the error of reading it,
  and stops with the first error the function returns.  A visit holds the path and the
  message of the I/O error or, without one, whether the file's mode is regular.
\<close>

type_synonym visit = "string \<times> (string + bool)"

text \<open>The function literal of \<^verbatim>\<open>loadImages\<close>; the images found so far are its state.\<close>

definition walk_fn :: "image list \<Rightarrow> visit \<Rightarrow> image list \<times> error option" where
  "walk_fn images v =
     (case snd v of
        Inl m \<Rightarrow> (images, Some (IOError m))
      | Inr regular \<Rightarrow>
          if \<not> regular then (images, None)
          else
            let e = ext (fst v) in
            if e \<noteq> ''.jpg'' \<and> e \<noteq> ''.jpeg'' \<and> e \<noteq> ''.gif'' \<and> e \<noteq> ''.png'' then (images, None)
            else (images @ [\<lparr>path = fst v, tag = base (dir (fst v))\<rparr>], None))"

fun walk :: "image list \<Rightarrow> visit list \<Rightarrow> image list \<times> error option" where
  "walk images [] = (images, None)"
| "walk images (v # vs) =
     (case walk_fn images v of
        (images', Some e) \<Rightarrow> (images', Some e)
      | (images', None) \<Rightarrow> walk images' vs)"

definition loadImages :: "visit list \<Rightarrow> image list \<times> error option" where
  "loadImages visits =
     (case walk [] visits of (images, e) \<Rightarrow>
        if length images = 0 \<and> e = None then (images, Some NoFixturesFound) else (images, e))"

text \<open>
  The words of the specification: a visit that reports an I/O error, and a visit of a
  matching file, which is a regular file whose extension is one of the four.
\<close>

definition io_error :: "visit \<Rightarrow> bool" where
  "io_error v = (case snd v of Inl m \<Rightarrow> True | Inr regular \<Rightarrow> False)"

definition image_file :: "visit \<Rightarrow> bool" where
  "image_file v = (snd v = Inr True \<and> ext (fst v) \<in> {''.jpg'', ''.jpeg'', ''.gif'', ''.png''})"

text \<open>The image \<^verbatim>\<open>image{path, tag}\<close> that the function literal records for a visit.\<close>

definition mk_image :: "visit \<Rightarrow> image" where
  "mk_image v = \<lparr>path = fst v, tag = base (dir (fst v))\<rparr>"

text \<open>\<^verbatim>\<open>collectTags\<close>: the empty tag, then the tags of the images in order of first occurrence.\<close>

fun collectTags_loop :: "image list \<Rightarrow> string list \<Rightarrow> string list \<Rightarrow> string list" where
  "collectTags_loop [] tags seen = tags"
| "collectTags_loop (img # imgs) tags seen =
     (if tag img \<in> set seen then collectTags_loop imgs tags seen
      else collectTags_loop imgs (tags @ [tag img]) (tag img # seen))"

definition collectTags :: "image list \<Rightarrow> string list" where
  "collectTags images = collectTags_loop images [[]] []"

subsection \<open>The workload clients\<close>

text \<open>\<^verbatim>\<open>strings.HasPrefix\<close> and \<^verbatim>\<open>strings.TrimPrefix\<close>\<close>

definition has_prefix :: "string \<Rightarrow> string \<Rightarrow> bool" where
  "has_prefix s p = (take (length p) s = p)"

definition trim_prefix :: "string \<Rightarrow> string \<Rightarrow> string" where
  "trim_prefix s p = (if has_prefix s p then drop (length p) s else s)"

text \<open>\<^verbatim>\<open>generateUser\<close>; \<^verbatim>\<open>rand.Intn\<close> panics when its argument is not positive.\<close>

definition generateUser :: "int \<Rightarrow> nat \<Rightarrow> panic + string" where
  "generateUser userCount r =
     (if userCount \<le> 0 then Inl IntnInvalidArgument
      else Inr (''user'' @ fmt_d (int64_add (int (intn r (nat userCount))) 1)))"

text \<open>
  \<^verbatim>\<open>uploadClient.makeRequest\<close>.  \<open>r1\<close> and \<open>r2\<close> are the two values it draws from the
  random generator.
\<close>

definition uploadClient_makeRequest ::
    "world \<Rightarrow> string \<Rightarrow> image list \<Rightarrow> int \<Rightarrow> nat \<Rightarrow> nat \<Rightarrow> panic + (request list \<times> error option)" where
  "uploadClient_makeRequest w host images userCount r1 r2 =
     (let url = ''http://'' @ host @ ''/upload'' in
      if length images = 0 then Inl IntnInvalidArgument
      else
        let i = intn r1 (length images);
            p = path (images ! i);
            t = tag (images ! i)
        in
        case generateUser userCount r2 of
          Inl pn \<Rightarrow> Inl pn
        | Inr user \<Rightarrow>
        (case write_field w ''username'' user of
          Some e \<Rightarrow> Inr ([], Some e)
        | None \<Rightarrow>
        (case json_marshal w [t] of
          Inl e \<Rightarrow> Inr ([], Some e)
        | Inr tagsJson \<Rightarrow>
        (case write_field w ''hashtags'' tagsJson of
          Some e \<Rightarrow> Inr ([], Some e)
        | None \<Rightarrow>
        (case create_form_file w (base p) of
          Some e \<Rightarrow> Inr ([], Some e)
        | None \<Rightarrow>
        (case os_open w p of
          Some e \<Rightarrow> Inr ([], Some e)
        | None \<Rightarrow>
        (case io_copy w p of
          Inl e \<Rightarrow> Inr ([], Some e)
        | Inr bytes \<Rightarrow>
          let req = PostMultipart url [(''username'', user), (''hashtags'', tagsJson)] (base p) bytes in
          (case http w req of
            Inl e \<Rightarrow> Inr ([req], Some e)
          | Inr resp \<Rightarrow>
              if status_code resp \<noteq> 200
              then Inr ([req], Some (UnexpectedStatus (status_code resp)))
              else Inr ([req], None)))))))))"

text \<open>
  The loop at the end of \<^verbatim>\<open>searchClient.makeRequest\<close>: the thumbnails go into the ring
  one by one, and the first one that does not fit ends the loop.
\<close>

fun feed :: "chan \<Rightarrow> string list \<Rightarrow> chan" where
  "feed ch [] = ch"
| "feed ch (thumb # thumbnails) =
     (case try_send ch thumb of
        (ch', True) \<Rightarrow> feed ch' thumbnails
      | (ch', False) \<Rightarrow> ch')"

definition searchClient_makeRequest ::
    "world \<Rightarrow> string \<Rightarrow> string list \<Rightarrow> chan \<Rightarrow> nat \<Rightarrow> panic + (chan \<times> request list \<times> error option)" where
  "searchClient_makeRequest w host tags ch r =
     (if length tags = 0 then Inl IntnInvalidArgument
      else
        let t = tags ! intn r (length tags);
            req = PostForm (''http://'' @ host @ ''/search'') t
        in
        case http w req of
          Inl e \<Rightarrow> Inr (ch, [req], Some e)
        | Inr resp \<Rightarrow>
            if status_code resp \<noteq> 200
            then Inr (ch, [req], Some (UnexpectedStatus (status_code resp)))
            else
              (case read_body resp of
                 Inl e \<Rightarrow> Inr (ch, [req], Some e)
               | Inr body \<Rightarrow>
                   (case json_unmarshal w body of
                      Inl e \<Rightarrow> Inr (ch, [req], Some e)
                    | Inr thumbnails \<Rightarrow> Inr (feed ch thumbnails, [req], None))))"

text \<open>The thumbnails a call of the search client decodes and offers to the ring.\<close>

definition search_decoded :: "world \<Rightarrow> string \<Rightarrow> string list \<Rightarrow> nat \<Rightarrow> string list" where
  "search_decoded w host tags r =
     (if length tags = 0 then []
      else
        case http w (PostForm (''http://'' @ host @ ''/search'') (tags ! intn r (length tags))) of
          Inl e \<Rightarrow> []
        | Inr resp \<Rightarrow>
            if status_code resp \<noteq> 200 then []
            else
              (case read_body resp of
                 Inl e \<Rightarrow> []
               | Inr body \<Rightarrow> (case json_unmarshal w body of Inl e \<Rightarrow> [] | Inr thumbnails \<Rightarrow> thumbnails)))"

text \<open>The identifier \<^verbatim>\<open>downloadClient.makeRequest\<close> asks for, given the one it popped.\<close>

definition rewrite_url :: "nat \<Rightarrow> string \<Rightarrow> string" where
  "rewrite_url r url =
     (let thumbPrefix = ''/download/thumbnail_'' in
      if intn r 100 = 0 \<and> has_prefix url thumbPrefix
      then ''/download/'' @ trim_prefix url thumbPrefix
      else url)"

definition downloadClient_makeRequest ::
    "world \<Rightarrow> string \<Rightarrow> chan \<Rightarrow> nat \<Rightarrow> chan \<times> request list \<times> error option" where
  "downloadClient_makeRequest w host ch r =
     (case try_recv ch of (ch1, got) \<Rightarrow>
      let url = (case got of None \<Rightarrow> [] | Some u \<Rightarrow> u) in
      if url = [] then (ch1, [], Some NoDownloadTargets)
      else
        (case try_send ch1 url of (ch2, sent) \<Rightarrow>
         let req = Get (''http://'' @ host @ rewrite_url r url) in
         case http w req of
           Inl e \<Rightarrow> (ch2, [req], Some e)
         | Inr resp \<Rightarrow>
             if status_code resp \<noteq> 200
             then (ch2, [req], Some (UnexpectedStatus (status_code resp)))
             else
               (case read_body resp of
                  Inl e \<Rightarrow> (ch2, [req], Some e)
                | Inr body \<Rightarrow>
                    if length body = 0 then (ch2, [req], Some EmptyBody) else (ch2, [req], None))))"

subsection \<open>The search and download workloads on the shared ring\<close>

text \<open>
  The ring is shared by the workers of the search and of the download workload.  A run
  is a list of calls of their clients, each with the world it meets and the values it
  draws; \<open>run_calls\<close> gives the ring after the run, or the panic that ended it.
\<close>

datatype call = SearchCall world nat | DownloadCall world nat

fun run_calls :: "string \<Rightarrow> string list \<Rightarrow> call list \<Rightarrow> chan \<Rightarrow> panic + chan" where
  "run_calls host tags [] ch = Inr ch"
| "run_calls host tags (SearchCall w r # cs) ch =
     (case searchClient_makeRequest w host tags ch r of
        Inl p \<Rightarrow> Inl p
      | Inr (ch', reqs, e) \<Rightarrow> run_calls host tags cs ch')"
| "run_calls host tags (DownloadCall w r # cs) ch =
     (case downloadClient_makeRequest w host ch r of
        (ch', reqs, e) \<Rightarrow> run_calls host tags cs ch')"

text \<open>Every thumbnail decoded by a search call of the run.\<close>

fun decoded_by :: "string \<Rightarrow> string list \<Rightarrow> call list \<Rightarrow> string set" where
  "decoded_by host tags [] = {}"
| "decoded_by host tags (SearchCall w r # cs) =
     set (search_decoded w host tags r) \<union> decoded_by host tags cs"
| "decoded_by host tags (DownloadCall w r # cs) = decoded_by host tags cs"

text \<open>
  The two clients under any interleaving of their workers.  Between the operations of
  one call on the ring, other calls can run; the state is the ring and the identifiers
  that download calls have popped and not yet put back (\<open>held\<close>).  \<open>Offer t\<close> is the send
  of a thumbnail \<open>t\<close> in the loop of a search call, \<open>Pop\<close> the receive of a download call,
  which keeps the identifier unless it is empty, and \<open>PutBack u\<close> the send by which a
  download call puts back the identifier \<open>u\<close> it holds.
\<close>

record shared =
  ring :: chan
  held :: "string list"

datatype ring_action = Offer string | Pop | PutBack string

fun ring_act :: "shared \<Rightarrow> ring_action \<Rightarrow> shared option" where
  "ring_act s (Offer t) = Some (s\<lparr>ring := fst (try_send (ring s) t)\<rparr>)"
| "ring_act s Pop =
     (case try_recv (ring s) of
        (ch', None) \<Rightarrow> Some (s\<lparr>ring := ch'\<rparr>)
      | (ch', Some u) \<Rightarrow> Some (s\<lparr>ring := ch', held := (if u = [] then held s else u # held s)\<rparr>))"
| "ring_act s (PutBack u) =
     (if u \<in> set (held s)
      then Some (s\<lparr>ring := fst (try_send (ring s) u), held := remove1 u (held s)\<rparr>)
      else None)"

fun ring_acts :: "shared \<Rightarrow> ring_action list \<Rightarrow> shared option" where
  "ring_acts s [] = Some s"
| "ring_acts s (a # as) = (case ring_act s a of None \<Rightarrow> None | Some s' \<Rightarrow> ring_acts s' as)"

text \<open>The thumbnails that the search calls of a run offer to the ring.\<close>

fun offered :: "ring_action list \<Rightarrow> string list" where
  "offered [] = []"
| "offered (Offer t # as) = t # offered as"
| "offered (a # as) = offered as"

subsection \<open>The rate-limited dispatcher\<close>

text \<open>
  What a pass of the dispatcher's loop does with its tick: \<open>Skipped\<close> is the
  \<^verbatim>\<open>continue\<close> of the ramp-up, which never reaches the send on \<^verbatim>\<open>requestChan\<close>;
  \<open>Dispatched\<close> is the send taken by a worker waiting in its \<^verbatim>\<open>select\<close>, which then
  calls \<^verbatim>\<open>client.makeRequest\<close> once and sends one report; \<open>Dropped\<close> is the
  \<^verbatim>\<open>default\<close> case of the send, no worker waiting.
\<close>

datatype tick_action = Skipped | Dropped | Dispatched

text \<open>
  \<^verbatim>\<open>percent := int(now.Sub(rampupStart) * 100 / rampup)\<close>, the percentage a tick of the
  ramp-up computes from the time elapsed since the start.
\<close>

definition percent_elapsed :: "int \<Rightarrow> int \<Rightarrow> int" where
  "percent_elapsed rampup elapsed = int64_div (int64_mul elapsed 100) rampup"

text \<open>
  One pass of the loop after a tick.  \<open>elapsed\<close> is \<^verbatim>\<open>now.Sub(rampupStart)\<close>; on the
  monotonic clock \<^verbatim>\<open>now.After(rampupEnd)\<close> is \<open>elapsed > rampup\<close>.  \<open>r\<close> is the raw
  value of the random generator and \<open>ready\<close> tells whether a worker is waiting.  The
  result is the new \<^verbatim>\<open>rampupDone\<close>, the lines logged and what became of the tick.
\<close>

definition loadTest_tick ::
    "string \<Rightarrow> int \<Rightarrow> bool \<Rightarrow> int \<Rightarrow> nat \<Rightarrow> bool \<Rightarrow> panic + (bool \<times> log_line list \<times> tick_action)" where
  "loadTest_tick name rampup rampupDone elapsed r ready =
     (let offer = (if ready then Dispatched else Dropped) in
      if \<not> rampupDone then
        (if elapsed > rampup then Inr (True, [RampupDoneLine name], offer)
         else if rampup = 0 then Inl DivideByZero
         else
           let percent = percent_elapsed rampup elapsed in
           if int (intn r 100) > percent then Inr (rampupDone, [], Skipped)
           else Inr (rampupDone, [], offer))
      else Inr (rampupDone, [], offer))"

text \<open>\<open>DoneClosed\<close> is the case \<^verbatim>\<open><-done\<close> of the loop's first \<^verbatim>\<open>select\<close>.\<close>

datatype dispatcher_event = DoneClosed | TickAt int nat bool

fun loadTest_loop ::
    "string \<Rightarrow> int \<Rightarrow> bool \<Rightarrow> dispatcher_event list \<Rightarrow> panic + (log_line list \<times> tick_action list)" where
  "loadTest_loop name rampup rampupDone [] = Inr ([], [])"
| "loadTest_loop name rampup rampupDone (DoneClosed # evs) = Inr ([], [])"
| "loadTest_loop name rampup rampupDone (TickAt elapsed r ready # evs) =
     (case loadTest_tick name rampup rampupDone elapsed r ready of
        Inl p \<Rightarrow> Inl p
      | Inr (rampupDone', ls, a) \<Rightarrow>
          (case loadTest_loop name rampup rampupDone' evs of
             Inl p \<Rightarrow> Inl p
           | Inr (ls', as) \<Rightarrow> Inr (ls @ ls', a # as)))"

text \<open>
  \<^verbatim>\<open>loadTest\<close>: \<^verbatim>\<open>time.Second / time.Duration(rate)\<close> panics for a rate of zero, and
  \<^verbatim>\<open>time.NewTicker\<close> panics for an interval that is not positive.
\<close>

definition loadTest ::
    "string \<Rightarrow> int \<Rightarrow> int \<Rightarrow> dispatcher_event list \<Rightarrow> panic + (log_line list \<times> tick_action list)" where
  "loadTest name rate rampup evs =
     (if rate = 0 then Inl DivideByZero
      else if int64_div 1000000000 rate \<le> 0 then Inl NonPositiveInterval
      else
        (case loadTest_loop name rampup (rampup = 0) evs of
           Inl p \<Rightarrow> Inl p
         | Inr (ls, as) \<Rightarrow> Inr (StartLine name rate # ls, as)))"

text \<open>The calls of \<^verbatim>\<open>client.makeRequest\<close> a run starts, each ending in one report.\<close>

definition requests_started :: "tick_action list \<Rightarrow> nat" where
  "requests_started as = length (filter (\<lambda>a. a = Dispatched) as)"

text \<open>
  The number of the hundred values of \<^verbatim>\<open>rand.Intn(100)\<close> with which a tick of the
  ramp-up is not skipped.
\<close>

definition admitting_draws :: "string \<Rightarrow> int \<Rightarrow> int \<Rightarrow> nat" where
  "admitting_draws name rampup elapsed =
     length (filter (\<lambda>d. loadTest_tick name rampup False elapsed d True = Inr (False, [], Dispatched)) [0..<100])"

subsection \<open>The process: \<^verbatim>\<open>main\<close>, the workers and the shutdown signal\<close>

text \<open>
  A worker of \<^verbatim>\<open>loadTest\<close> waits in its \<^verbatim>\<open>select\<close> (\<open>Idle\<close>), is inside
  \<^verbatim>\<open>client.makeRequest\<close> (\<open>InFlight\<close>), waits to hand its report to the reporter on the
  unbuffered \<^verbatim>\<open>reportChan\<close> (\<open>Reporting\<close>), or has returned (\<open>Exited\<close>).
  \<^verbatim>\<open>main\<close> sleeps, closes \<^verbatim>\<open>done\<close> and returns; a Go program ends when \<^verbatim>\<open>main\<close>
  returns, whatever its other goroutines are doing.  The goroutines run interleaved:
  a run of the process is a list of actions, each enabled in the state it is taken in.
\<close>

datatype worker = Idle | InFlight | Reporting | Exited

record process =
  done_closed :: bool
  main_returned :: bool
  reporter_running :: bool
  workers :: "worker list"

datatype action =
    MainCloseDone
  | MainReturn
  | ReporterExit
  | Accept nat
  | ObserveDone nat
  | CallReturns nat
  | ReportTaken nat

definition worker_is :: "process \<Rightarrow> nat \<Rightarrow> worker \<Rightarrow> bool" where
  "worker_is s i w = (i < length (workers s) \<and> workers s ! i = w)"

definition set_worker :: "process \<Rightarrow> nat \<Rightarrow> worker \<Rightarrow> process" where
  "set_worker s i w = s\<lparr>workers := (workers s)[i := w]\<rparr>"

fun step :: "process \<Rightarrow> action \<Rightarrow> process option" where
  "step s MainCloseDone =
     (if \<not> main_returned s \<and> \<not> done_closed s then Some (s\<lparr>done_closed := True\<rparr>) else None)"
| "step s MainReturn =
     (if \<not> main_returned s \<and> done_closed s then Some (s\<lparr>main_returned := True\<rparr>) else None)"
| "step s ReporterExit =
     (if \<not> main_returned s \<and> done_closed s \<and> reporter_running s
      then Some (s\<lparr>reporter_running := False\<rparr>) else None)"
| "step s (Accept i) =
     (if \<not> main_returned s \<and> worker_is s i Idle then Some (set_worker s i InFlight) else None)"
| "step s (ObserveDone i) =
     (if \<not> main_returned s \<and> done_closed s \<and> worker_is s i Idle
      then Some (set_worker s i Exited) else None)"
| "step s (CallReturns i) =
     (if \<not> main_returned s \<and> worker_is s i InFlight then Some (set_worker s i Reporting) else None)"
| "step s (ReportTaken i) =
     (if \<not> main_returned s \<and> reporter_running s \<and> worker_is s i Reporting
      then Some (set_worker s i Idle) else None)"

fun run :: "process \<Rightarrow> action list \<Rightarrow> process option" where
  "run s [] = Some s"
| "run s (a # as) = (case step s a of None \<Rightarrow> None | Some s' \<Rightarrow> run s' as)"

text \<open>The process as \<^verbatim>\<open>main\<close> starts it for one workload with \<open>n\<close> workers.\<close>

definition start :: "nat \<Rightarrow> process" where
  "start n = \<lparr>done_closed = False, main_returned = False, reporter_running = True,
     workers = replicate n Idle\<rparr>"

subsection \<open>A stub target\<close>

text \<open>
  A target that answers every request with the status \<open>c\<close> and the body \<open>b\<close>, in a
  world where every library call succeeds, a list of one plain tag is encoded as JSON
  encodes it, and the body decodes to the identifiers \<open>ids\<close>.
\<close>

definition stub_world :: "int \<Rightarrow> string \<Rightarrow> string list \<Rightarrow> world" where
  "stub_world c b ids =
     \<lparr>http = (\<lambda>q. Inr \<lparr>status_code = c, read_body = Inr b\<rparr>),
      write_field = (\<lambda>k v. None),
      json_marshal = (\<lambda>ts. Inr (''['' @ concat (map (\<lambda>t. CHR 0x22 # t @ [CHR 0x22]) ts) @ '']'')),
      create_form_file = (\<lambda>n. None),
      os_open = (\<lambda>p. None),
      io_copy = (\<lambda>p. Inr ''bytes''),
      json_unmarshal = (\<lambda>body. Inr ids)\<rparr>"

section \<open>Properties\<close>

subsection \<open>Machine integers\<close>

lemma wrap64_id: "- (2 ^ 63) \<le> k \<Longrightarrow> k < 2 ^ 63 \<Longrightarrow> wrap64 k = k"
  by (simp add: wrap64_def)

lemma p99_index_small:
  assumes "int n * 99 < 2 ^ 63"
  shows "p99_index n = int (n * 99 div 100)"
proof -
  have a: "int64_mul (int n) 99 = int n * 99"
    using assms by (simp add: int64_mul_def wrap64_id)
  have b: "(int n * 99) sdiv 100 = int n * 99 div 100"
    by (simp add: signed_divide_int_def sgn_if)
  have c: "int n * 99 div 100 < 2 ^ 63"
    using assms by linarith
  have "wrap64 (int n * 99 div 100) = int n * 99 div 100"
    using c by (intro wrap64_id) simp_all
  then show ?thesis
    by (simp add: p99_index_def int64_div_def a b zdiv_int)
qed

subsection \<open>The summary of a reporting window\<close>

lemma floor_99: "nat \<lfloor>0.99 * real n\<rfloor> = n * 99 div 100"
proof -
  have "(0.99::real) * real n = real (n * 99) / real 100" by simp
  then have "\<lfloor>0.99 * real n\<rfloor> = \<lfloor>real (n * 99) / real 100\<rfloor>" by (simp only:)
  also have "\<dots> = int (n * 99 div 100)"
    by (simp only: floor_divide_of_nat_eq)
  finally show ?thesis by simp
qed

lemma sorted_times_unique:
  assumes "mset ys = mset xs" "sorted (map time ys)"
  shows "map time ys = map time (sort_key time xs)"
proof -
  have "mset (map time ys) = mset (map time xs)" using assms(1) by (metis mset_map)
  then have a: "sort (map time xs) = map time ys"
    using assms(2) by (intro properties_for_sort) simp_all
  have b: "sort (map time xs) = map time (sort_key time xs)"
    by (intro properties_for_sort) simp_all
  from a b show ?thesis by simp
qed

lemma logReports_nonempty:
  assumes "reports \<noteq> []" "int (length reports) * 99 < 2 ^ 63"
  shows "\<exists>avg errs ls. logReports name tick reports =
     Inr (SummaryLine name (length reports) tick
       (Some (avg, millis (time (sort_key time reports ! (length reports * 99 div 100))), errs)) # ls)"
proof -
  obtain t e n where T: "tally reports (0, [], 0) = (t, e, n)"
    by (cases "tally reports (0, [], 0)") auto
  have L: "0 < length reports" using assms(1) by simp
  have P: "p99_index (length reports) = int (length reports * 99 div 100)"
    using assms(2) by (rule p99_index_small)
  have B: "length reports * 99 div 100 < length reports" using L by arith
  have N: "sort_key time reports \<noteq> []" using assms(1) by (cases reports) auto
  show ?thesis
    using L B N by (simp add: logReports_def T P Let_def)
qed

lemma logReports_empty: "logReports name tick [] = Inr [SummaryLine name 0 tick None]"
  by (simp add: logReports_def)

lemma reported_p99_nonempty:
  assumes "reports \<noteq> []" "int (length reports) * 99 < 2 ^ 63"
  shows "reported_p99 (logReports name tick reports) =
    Some (millis (time (sort_key time reports ! (length reports * 99 div 100))))"
  using logReports_nonempty [OF assms, of name tick] by auto

lemma sorted_last_is_max:
  assumes "sorted (map time ys)" "r \<in> set ys" "\<forall>x\<in>set ys. time x \<le> time r" "k = length ys - 1"
  shows "time (ys ! k) = time r"
proof -
  have ne: "ys \<noteq> []" using assms(2) by auto
  then have k: "k < length ys" using assms(4) by simp
  obtain j where j: "j < length ys" "ys ! j = r"
    using assms(2) by (auto simp: in_set_conv_nth)
  have "j \<le> k" using j(1) assms(4) by simp
  then have "map time ys ! j \<le> map time ys ! k"
    using assms(1) k by (intro sorted_nth_mono) simp_all
  then have "time r \<le> time (ys ! k)" using j k by simp
  moreover have "time (ys ! k) \<le> time r" using assms(3) k by simp
  ultimately show ?thesis by simp
qed

text \<open>
  Claim C1.  For a non-empty window the p99 in the summary line is the duration, in the
  whole milliseconds of the log line, of the report at index \<open>\<lfloor>0.99 \<times> N\<rfloor>\<close> of the
  reports sorted by duration, whichever sorted order \<^verbatim>\<open>sort.Slice\<close> produces; for one
  report it is that report's duration, and for a hundred reports the index is 99 and the
  p99 is the duration of a report that no other exceeds.  The length of the window is
  one whose product with 99 fits Go's \<^verbatim>\<open>int\<close>, as that of every slice that fits the
  address space does.
\<close>

theorem p99_sorted_index:
  assumes "reports \<noteq> []" and "int (length reports) * 99 < 2 ^ 63"
  shows "reported_p99 (logReports name tick reports) =
           Some (millis (time (sort_key time reports ! nat \<lfloor>0.99 * real (length reports)\<rfloor>)))
       \<and> (\<forall>ys. mset ys = mset reports \<and> sorted (map time ys) \<longrightarrow>
             reported_p99 (logReports name tick reports) =
               Some (millis (time (ys ! nat \<lfloor>0.99 * real (length reports)\<rfloor>))))
       \<and> (\<forall>r. reports = [r] \<longrightarrow> reported_p99 (logReports name tick reports) = Some (millis (time r)))
       \<and> (\<forall>r. length reports = 100 \<and> r \<in> set reports \<and> (\<forall>x\<in>set reports. time x \<le> time r) \<longrightarrow>
             nat \<lfloor>0.99 * real (length reports)\<rfloor> = 99 \<and>
             reported_p99 (logReports name tick reports) = Some (millis (time r)))"
proof -
  let ?k = "length reports * 99 div 100"
  let ?s = "sort_key time reports"
  have P: "reported_p99 (logReports name tick reports) = Some (millis (time (?s ! ?k)))"
    using assms by (rule reported_p99_nonempty)
  have K: "?k < length reports" using assms(1) by (cases reports) simp_all
  have A: "\<forall>ys. mset ys = mset reports \<and> sorted (map time ys) \<longrightarrow> time (ys ! ?k) = time (?s ! ?k)"
  proof (intro allI impI)
    fix ys assume h: "mset ys = mset reports \<and> sorted (map time ys)"
    then have m: "map time ys = map time ?s" by (intro sorted_times_unique) simp_all
    have l: "length ys = length reports" using h by (metis size_mset)
    have "map time ys ! ?k = map time ?s ! ?k" using m by simp
    then show "time (ys ! ?k) = time (?s ! ?k)" using K l by simp
  qed
  have B: "\<forall>r. reports = [r] \<longrightarrow> time (?s ! ?k) = time r" by auto
  have C: "\<forall>r. length reports = 100 \<and> r \<in> set reports \<and> (\<forall>x\<in>set reports. time x \<le> time r) \<longrightarrow>
             ?k = 99 \<and> time (?s ! ?k) = time r"
  proof (intro allI impI)
    fix r assume h: "length reports = 100 \<and> r \<in> set reports \<and> (\<forall>x\<in>set reports. time x \<le> time r)"
    have k: "?k = 99" using h by simp
    have "time (?s ! (length ?s - 1)) = time r"
      using h by (intro sorted_last_is_max) simp_all
    then show "?k = 99 \<and> time (?s ! ?k) = time r" using h by simp
  qed
  have E: "nat \<lfloor>0.99 * real (length reports)\<rfloor> = ?k" by (rule floor_99)
  have 1: "reported_p99 (logReports name tick reports) =
           Some (millis (time (?s ! nat \<lfloor>0.99 * real (length reports)\<rfloor>)))"
    by (simp only: P E)
  have 2: "\<forall>ys. mset ys = mset reports \<and> sorted (map time ys) \<longrightarrow>
             reported_p99 (logReports name tick reports) =
               Some (millis (time (ys ! nat \<lfloor>0.99 * real (length reports)\<rfloor>)))"
  proof (intro allI impI)
    fix ys assume "mset ys = mset reports \<and> sorted (map time ys)"
    with A have "time (ys ! ?k) = time (?s ! ?k)" by blast
    then show "reported_p99 (logReports name tick reports) =
               Some (millis (time (ys ! nat \<lfloor>0.99 * real (length reports)\<rfloor>)))"
      by (simp only: P E)
  qed
  have 3: "\<forall>r. reports = [r] \<longrightarrow> reported_p99 (logReports name tick reports) = Some (millis (time r))"
  proof (intro allI impI)
    fix r assume "reports = [r]"
    with B have "time (?s ! ?k) = time r" by blast
    then show "reported_p99 (logReports name tick reports) = Some (millis (time r))"
      by (simp only: P)
  qed
  have 4: "\<forall>r. length reports = 100 \<and> r \<in> set reports \<and> (\<forall>x\<in>set reports. time x \<le> time r) \<longrightarrow>
             nat \<lfloor>0.99 * real (length reports)\<rfloor> = 99 \<and>
             reported_p99 (logReports name tick reports) = Some (millis (time r))"
  proof (intro allI impI)
    fix r assume "length reports = 100 \<and> r \<in> set reports \<and> (\<forall>x\<in>set reports. time x \<le> time r)"
    with C have c1: "?k = 99" and c2: "time (?s ! ?k) = time r" by blast+
    have "nat \<lfloor>0.99 * real (length reports)\<rfloor> = 99" by (simp only: E c1)
    moreover have "reported_p99 (logReports name tick reports) = Some (millis (time r))"
      by (simp only: P c2)
    ultimately show "nat \<lfloor>0.99 * real (length reports)\<rfloor> = 99 \<and>
             reported_p99 (logReports name tick reports) = Some (millis (time r))" by (rule conjI)
  qed
  from 1 2 3 4 show ?thesis by (intro conjI)
qed

theorem p99_sorted_index_witness:
  "[\<lparr>time = 7000000, err = None\<rparr>] \<noteq> []
   \<and> int (length [\<lparr>time = 7000000, err = None\<rparr>]) * 99 < 2 ^ 63
   \<and> reported_p99 (logReports ''ui'' 10000000000 [\<lparr>time = 7000000, err = None\<rparr>]) = Some 7
   \<and> replicate 99 \<lparr>time = 1000000, err = None\<rparr> @ [\<lparr>time = 9000000000, err = Some EmptyBody\<rparr>] \<noteq> []
   \<and> int (length (replicate 99 \<lparr>time = 1000000, err = None\<rparr> @ [\<lparr>time = 9000000000, err = Some EmptyBody\<rparr>])) * 99 < 2 ^ 63
   \<and> reported_p99 (logReports ''ui'' 10000000000
         (replicate 99 \<lparr>time = 1000000, err = None\<rparr> @ [\<lparr>time = 9000000000, err = Some EmptyBody\<rparr>])) = Some 9000"
proof -
  let ?rs = "[\<lparr>time = 7000000, err = None\<rparr>]"
  have n: "?rs \<noteq> []" by simp
  have h: "int (length ?rs) * 99 < 2 ^ 63" by simp
  have "\<forall>r. ?rs = [r] \<longrightarrow> reported_p99 (logReports ''ui'' 10000000000 ?rs) = Some (millis (time r))"
    using p99_sorted_index [OF n h, of "''ui''" 10000000000] by (elim conjE)
  then have "reported_p99 (logReports ''ui'' 10000000000 ?rs) = Some (millis 7000000)"
    by simp
  moreover have "millis 7000000 = 7"
    by (simp add: millis_def int64_div_def wrap64_def signed_divide_int_def)
  ultimately have c: "reported_p99 (logReports ''ui'' 10000000000 ?rs) = Some 7" by simp
  let ?o = "\<lparr>time = 9000000000, err = Some EmptyBody\<rparr>"
  let ?hs = "replicate 99 \<lparr>time = 1000000, err = None\<rparr> @ [?o]"
  have n': "?hs \<noteq> []" by simp
  have h': "int (length ?hs) * 99 < 2 ^ 63" by simp
  have "\<forall>r. length ?hs = 100 \<and> r \<in> set ?hs \<and> (\<forall>x\<in>set ?hs. time x \<le> time r) \<longrightarrow>
          nat \<lfloor>0.99 * real (length ?hs)\<rfloor> = 99 \<and>
          reported_p99 (logReports ''ui'' 10000000000 ?hs) = Some (millis (time r))"
    using p99_sorted_index [OF n' h', of "''ui''" 10000000000] by (elim conjE)
  then have "length ?hs = 100 \<and> ?o \<in> set ?hs \<and> (\<forall>x\<in>set ?hs. time x \<le> time ?o) \<longrightarrow>
          reported_p99 (logReports ''ui'' 10000000000 ?hs) = Some (millis (time ?o))"
    by blast
  moreover have "length ?hs = 100 \<and> ?o \<in> set ?hs \<and> (\<forall>x\<in>set ?hs. time x \<le> time ?o)"
    by simp
  ultimately have "reported_p99 (logReports ''ui'' 10000000000 ?hs) = Some (millis (time ?o))"
    by (rule mp)
  moreover have "millis (time ?o) = 9000"
    by (simp add: millis_def int64_div_def wrap64_def signed_divide_int_def)
  ultimately have c': "reported_p99 (logReports ''ui'' 10000000000 ?hs) = Some 9000" by simp
  from n h c n' h' c' show ?thesis by (intro conjI)
qed

text \<open>
  Claim C9.  For a non-empty window of \<open>N\<close> reports the index
  \<^verbatim>\<open>len(reports) * 99 / 100\<close> is \<open>N * 99 div 100\<close>, is not negative and is below \<open>N\<close>, so
  the slice is read in range; and \<^verbatim>\<open>logReports\<close> returns its lines without a panic for
  every window, empty or not, whatever its reports hold.  The length of the window is
  one whose product with 99 fits Go's \<^verbatim>\<open>int\<close>.
\<close>

theorem logReports_total:
  assumes "int (length reports) * 99 < 2 ^ 63"
  shows "(reports \<noteq> [] \<longrightarrow>
            p99_index (length reports) = int (length reports * 99 div 100)
          \<and> 0 \<le> p99_index (length reports)
          \<and> p99_index (length reports) < int (length reports))
       \<and> (\<exists>ls. logReports name tick reports = Inr ls)"
proof (cases "reports = []")
  case True
  then show ?thesis by (simp add: logReports_empty)
next
  case False
  have P: "p99_index (length reports) = int (length reports * 99 div 100)"
    using assms by (rule p99_index_small)
  have B: "length reports * 99 div 100 < length reports" using False by (cases reports) simp_all
  have "\<exists>ls. logReports name tick reports = Inr ls"
    using logReports_nonempty [OF False assms, of name tick] by blast
  then show ?thesis using P B by simp
qed

theorem logReports_total_witness:
  "int (length [\<lparr>time = 5000000, err = None\<rparr>, \<lparr>time = 3000000, err = Some EmptyBody\<rparr>]) * 99 < 2 ^ 63
   \<and> p99_index (length [\<lparr>time = 5000000, err = None\<rparr>, \<lparr>time = 3000000, err = Some EmptyBody\<rparr>]) = 1
   \<and> (\<exists>ls. logReports ''ui'' 10000000000 [\<lparr>time = 5000000, err = None\<rparr>, \<lparr>time = 3000000, err = Some EmptyBody\<rparr>] = Inr ls)"
proof -
  let ?rs = "[\<lparr>time = 5000000, err = None\<rparr>, \<lparr>time = 3000000, err = Some EmptyBody\<rparr>]"
  have h: "int (length ?rs) * 99 < 2 ^ 63" by simp
  have n: "?rs \<noteq> []" by simp
  note t = logReports_total [OF h, of "''ui''" 10000000000]
  from t n have "p99_index (length ?rs) = int (length ?rs * 99 div 100)" by (elim conjE impE)
  then have a: "p99_index (length ?rs) = 1" by simp
  from t have b: "\<exists>ls. logReports ''ui'' 10000000000 ?rs = Inr ls" by (elim conjE)
  from h a b show ?thesis by (intro conjI)
qed

subsection \<open>The result reporter\<close>

lemma reporter_loop_reports_done:
  "reporter_loop name reports (map ReportEv rs @ DoneEv # post) = Inr []"
  by (induction rs arbitrary: reports) simp_all

lemma reporter_loop_cut:
  "reporter_loop name reports (pre @ map ReportEv rs @ DoneEv # post) = reporter_loop name reports pre"
proof (induction pre arbitrary: reports)
  case Nil
  show ?case by (simp add: reporter_loop_reports_done)
next
  case (Cons ev pre)
  show ?case
  proof (cases ev)
    case DoneEv
    then show ?thesis by simp
  next
    case (ReportEv r)
    then show ?thesis using Cons.IH [of "reports @ [r]"] by simp
  next
    case (TickEv d)
    then show ?thesis using Cons.IH [of "[]"] by (simp split: sum.splits)
  qed
qed

text \<open>
  Claim C8.  A run of the reporter that takes the case \<^verbatim>\<open><-done\<close> logs what the run
  logs that stops before the reports received since the last tick: those reports (\<open>rs\<close>)
  are never summarised, and nothing that becomes ready after the shutdown (\<open>post\<close>),
  tick or report, adds a line.  Taking the case \<^verbatim>\<open><-done\<close> with any window logs nothing.
\<close>

theorem reporter_no_final_flush:
  "reporter name (pre @ map ReportEv rs @ DoneEv # post) = reporter name pre
   \<and> reporter_loop name reports (DoneEv # post) = Inr []"
  by (simp add: reporter_def reporter_loop_cut)

subsection \<open>The ring\<close>

lemma try_send_full: "cap ch \<le> length (buf ch) \<Longrightarrow> try_send ch x = (ch, False)"
  by (simp add: try_send_def)

lemma feed_Cons:
  "feed ch (t # ts) = (if length (buf ch) < cap ch then feed (ch\<lparr>buf := buf ch @ [t]\<rparr>) ts else ch)"
  by (simp add: try_send_def)

lemma feed_cap: "cap (feed ch ts) = cap ch"
proof (induction ts arbitrary: ch)
  case Nil
  show ?case by simp
next
  case (Cons t ts)
  show ?case using Cons.IH [of "ch\<lparr>buf := buf ch @ [t]\<rparr>"] by (simp only: feed_Cons) simp
qed

lemma feed_bounded: "length (buf ch) \<le> cap ch \<Longrightarrow> length (buf (feed ch ts)) \<le> cap ch"
proof (induction ts arbitrary: ch)
  case Nil
  then show ?case by simp
next
  case (Cons t ts)
  show ?case
  proof (cases "length (buf ch) < cap ch")
    case True
    then have "length (buf (feed (ch\<lparr>buf := buf ch @ [t]\<rparr>) ts)) \<le> cap (ch\<lparr>buf := buf ch @ [t]\<rparr>)"
      by (intro Cons.IH) simp
    then show ?thesis using True by (simp only: feed_Cons) simp
  next
    case False
    then show ?thesis using Cons.prems by (simp only: feed_Cons) simp
  qed
qed

lemma feed_set: "set (buf (feed ch ts)) \<subseteq> set (buf ch) \<union> set ts"
proof (induction ts arbitrary: ch)
  case Nil
  show ?case by simp
next
  case (Cons t ts)
  show ?case
  proof (cases "length (buf ch) < cap ch")
    case True
    have "set (buf (feed (ch\<lparr>buf := buf ch @ [t]\<rparr>) ts)) \<subseteq> set (buf (ch\<lparr>buf := buf ch @ [t]\<rparr>)) \<union> set ts"
      by (rule Cons.IH)
    then show ?thesis using True by (simp only: feed_Cons) auto
  next
    case False
    then show ?thesis by (simp only: feed_Cons) auto
  qed
qed

lemma search_ring:
  assumes "searchClient_makeRequest w host tags ch r = Inr (ch', reqs, e)"
  shows "ch' = ch \<or> ch' = feed ch (search_decoded w host tags r)"
  using assms
  by (auto simp: searchClient_makeRequest_def search_decoded_def Let_def
      split: if_splits sum.splits)

lemma download_ring:
  "fst (downloadClient_makeRequest w host ch r) =
     (case buf ch of
        [] \<Rightarrow> ch
      | u # rest \<Rightarrow> if u = [] then ch\<lparr>buf := rest\<rparr> else fst (try_send (ch\<lparr>buf := rest\<rparr>) u))"
  by (auto simp: downloadClient_makeRequest_def try_recv_def Let_def
      split: list.splits prod.splits sum.splits)

lemma download_requests:
  "buf ch = u # rest \<Longrightarrow> u \<noteq> [] \<Longrightarrow>
   fst (snd (downloadClient_makeRequest w host ch r)) = [Get (''http://'' @ host @ rewrite_url r u)]"
  by (auto simp: downloadClient_makeRequest_def try_recv_def Let_def
      split: list.splits prod.splits sum.splits)

lemma download_cap: "cap (fst (downloadClient_makeRequest w host ch r)) = cap ch"
  by (simp add: download_ring try_send_def split: list.splits)

lemma download_bounded:
  "length (buf ch) \<le> cap ch \<Longrightarrow> length (buf (fst (downloadClient_makeRequest w host ch r))) \<le> cap ch"
  by (auto simp: download_ring try_send_def split: list.splits)

lemma download_set: "set (buf (fst (downloadClient_makeRequest w host ch r))) \<subseteq> set (buf ch)"
  by (auto simp: download_ring try_send_def split: list.splits)

lemma run_calls_bounded:
  "run_calls host tags cs ch = Inr ch' \<Longrightarrow> length (buf ch) \<le> cap ch
   \<Longrightarrow> length (buf ch') \<le> cap ch' \<and> cap ch' = cap ch"
proof (induction cs arbitrary: ch)
  case Nil
  then show ?case by simp
next
  case (Cons c cs)
  show ?case
  proof (cases c)
    case (SearchCall w r)
    with Cons.prems obtain ch1 reqs e where
      s: "searchClient_makeRequest w host tags ch r = Inr (ch1, reqs, e)"
      and rest: "run_calls host tags cs ch1 = Inr ch'"
      by (auto split: sum.splits)
    from search_ring [OF s] have "length (buf ch1) \<le> cap ch1 \<and> cap ch1 = cap ch"
      using Cons.prems(2) by (auto simp: feed_cap feed_bounded)
    with Cons.IH [OF rest] show ?thesis by simp
  next
    case (DownloadCall w r)
    with Cons.prems have rest:
      "run_calls host tags cs (fst (downloadClient_makeRequest w host ch r)) = Inr ch'"
      by (auto split: prod.splits)
    have "length (buf (fst (downloadClient_makeRequest w host ch r))) \<le> cap (fst (downloadClient_makeRequest w host ch r))"
      using Cons.prems(2) by (simp add: download_cap download_bounded)
    with Cons.IH [OF rest] show ?thesis by (simp add: download_cap)
  qed
qed

lemma run_calls_origin:
  "run_calls host tags cs ch = Inr ch' \<Longrightarrow> set (buf ch') \<subseteq> set (buf ch) \<union> decoded_by host tags cs"
proof (induction cs arbitrary: ch)
  case Nil
  then show ?case by simp
next
  case (Cons c cs)
  show ?case
  proof (cases c)
    case (SearchCall w r)
    with Cons.prems obtain ch1 reqs e where
      s: "searchClient_makeRequest w host tags ch r = Inr (ch1, reqs, e)"
      and rest: "run_calls host tags cs ch1 = Inr ch'"
      by (auto split: sum.splits)
    from search_ring [OF s] have "set (buf ch1) \<subseteq> set (buf ch) \<union> set (search_decoded w host tags r)"
      using feed_set [of ch "search_decoded w host tags r"] by auto
    with Cons.IH [OF rest] show ?thesis using SearchCall by auto
  next
    case (DownloadCall w r)
    with Cons.prems have rest:
      "run_calls host tags cs (fst (downloadClient_makeRequest w host ch r)) = Inr ch'"
      by (auto split: prod.splits)
    from Cons.IH [OF rest] download_set [of w host ch r] show ?thesis using DownloadCall by auto
  qed
qed

lemma ring_act_invariant:
  assumes "ring_act s a = Some s'"
    and "set (buf (ring s)) \<union> set (held s) \<subseteq> A"
    and "length (buf (ring s)) \<le> cap (ring s)"
  shows "set (buf (ring s')) \<union> set (held s') \<subseteq> A \<union> set (offered [a])
       \<and> length (buf (ring s')) \<le> cap (ring s') \<and> cap (ring s') = cap (ring s)"
proof (cases a)
  case (Offer t)
  with assms show ?thesis by (auto simp: try_send_def split: if_splits)
next
  case Pop
  with assms show ?thesis
    by (auto simp: try_recv_def split: list.splits if_splits)
next
  case (PutBack u)
  with assms show ?thesis
    by (auto simp: try_send_def split: if_splits dest!: set_remove1_subset [THEN subsetD])
qed

lemma offered_append: "offered (as @ bs) = offered as @ offered bs"
  by (induction as rule: offered.induct) simp_all

lemma ring_acts_invariant:
  "ring_acts s as = Some s' \<Longrightarrow> set (buf (ring s)) \<union> set (held s) \<subseteq> A
   \<Longrightarrow> length (buf (ring s)) \<le> cap (ring s)
   \<Longrightarrow> set (buf (ring s')) \<union> set (held s') \<subseteq> A \<union> set (offered as)
       \<and> length (buf (ring s')) \<le> cap (ring s') \<and> cap (ring s') = cap (ring s)"
proof (induction as arbitrary: s A)
  case Nil
  then show ?case by simp
next
  case (Cons a as)
  from Cons.prems(1) obtain s1 where a: "ring_act s a = Some s1" and r: "ring_acts s1 as = Some s'"
    by (auto split: option.splits)
  from ring_act_invariant [OF a Cons.prems(2) Cons.prems(3)]
  have i: "set (buf (ring s1)) \<union> set (held s1) \<subseteq> A \<union> set (offered [a])"
    and b: "length (buf (ring s1)) \<le> cap (ring s1)" and c: "cap (ring s1) = cap (ring s)"
    by blast+
  from Cons.IH [OF r i b] c
  have "set (buf (ring s')) \<union> set (held s') \<subseteq> (A \<union> set (offered [a])) \<union> set (offered as)
       \<and> length (buf (ring s')) \<le> cap (ring s') \<and> cap (ring s') = cap (ring s)" by simp
  moreover have "offered (a # as) = offered [a] @ offered as"
    using offered_append [of "[a]" as] by simp
  ultimately show ?case by auto
qed

text \<open>
  The calls of the clients are runs of these actions: the loop of the search client
  offers a prefix of its list, and the download client pops and, unless it got nothing,
  puts back what it popped.
\<close>

lemma feed_as_offers:
  "\<exists>k. ring_acts \<lparr>ring = ch, held = h\<rparr> (map Offer (take k ts)) = Some \<lparr>ring = feed ch ts, held = h\<rparr>"
proof (induction ts arbitrary: ch)
  case Nil
  show ?case by simp
next
  case (Cons t ts)
  show ?case
  proof (cases "length (buf ch) < cap ch")
    case True
    then have f: "feed ch (t # ts) = feed (ch\<lparr>buf := buf ch @ [t]\<rparr>) ts" by (simp add: try_send_def)
    from Cons.IH [of "ch\<lparr>buf := buf ch @ [t]\<rparr>"] obtain k where
      "ring_acts \<lparr>ring = ch\<lparr>buf := buf ch @ [t]\<rparr>, held = h\<rparr> (map Offer (take k ts))
         = Some \<lparr>ring = feed (ch\<lparr>buf := buf ch @ [t]\<rparr>) ts, held = h\<rparr>" by blast
    then have "ring_acts \<lparr>ring = ch, held = h\<rparr> (map Offer (take (Suc k) (t # ts)))
         = Some \<lparr>ring = feed ch (t # ts), held = h\<rparr>"
      using True by (simp add: f try_send_def)
    then show ?thesis by blast
  next
    case False
    then have "ring_acts \<lparr>ring = ch, held = h\<rparr> (map Offer (take 0 (t # ts)))
         = Some \<lparr>ring = feed ch (t # ts), held = h\<rparr>"
      by (simp add: try_send_def)
    then show ?thesis by blast
  qed
qed

lemma download_as_actions:
  "ring_acts \<lparr>ring = ch, held = h\<rparr>
     (case buf ch of [] \<Rightarrow> [Pop] | u # rest \<Rightarrow> if u = [] then [Pop] else [Pop, PutBack u])
   = Some \<lparr>ring = fst (downloadClient_makeRequest w host ch r), held = h\<rparr>"
  by (auto simp: download_ring try_recv_def split: list.splits)

subsection \<open>The download client on an empty ring\<close>

text \<open>
  Claim C3.  With the ring empty, \<^verbatim>\<open>downloadClient.makeRequest\<close> returns the error
  ``no download urls found'', sends no request and leaves the ring as it is; the receive
  takes its \<^verbatim>\<open>default\<close> case at once and yields nothing.
\<close>

theorem download_empty_ring:
  assumes "buf ch = []"
  shows "downloadClient_makeRequest w host ch r = (ch, [], Some NoDownloadTargets)
       \<and> error_message NoDownloadTargets = ''no download urls found''
       \<and> try_recv ch = (ch, None)"
  using assms by (simp add: downloadClient_makeRequest_def try_recv_def)

theorem download_empty_ring_witness:
  "buf (make_chan 1000) = []
   \<and> downloadClient_makeRequest (stub_world 200 ''x'' []) ''127.0.0.1'' (make_chan 1000) 7
       = (make_chan 1000, [], Some NoDownloadTargets)"
proof -
  have h: "buf (make_chan 1000) = []" by (simp add: make_chan_def)
  from download_empty_ring [OF h, of "stub_world 200 ''x'' []" "''127.0.0.1''" 7]
  have "downloadClient_makeRequest (stub_world 200 ''x'' []) ''127.0.0.1'' (make_chan 1000) 7
       = (make_chan 1000, [], Some NoDownloadTargets)" by (elim conjE)
  with h show ?thesis by (intro conjI)
qed

subsection \<open>The upload client\<close>

lemma upload_sent:
  assumes "uploadClient_makeRequest w host images userCount r1 r2 = Inr ([q], e)"
  shows "e = (case http w q of
                Inl t \<Rightarrow> Some t
              | Inr resp \<Rightarrow> if status_code resp \<noteq> 200 then Some (UnexpectedStatus (status_code resp)) else None)"
  using assms
  by (auto simp: uploadClient_makeRequest_def Let_def split: if_splits sum.splits option.splits)

text \<open>
  Claim C5.  When \<^verbatim>\<open>uploadClient.makeRequest\<close> has sent its request \<open>q\<close> and the
  transport has delivered a response, the call returns no error if and only if the status
  is 200, and for any other status \<open>c\<close> it returns the error of the message
  ``unexpected status code: \<open>c\<close>''.
\<close>

theorem upload_status:
  assumes "uploadClient_makeRequest w host images userCount r1 r2 = Inr ([q], e)"
    and "http w q = Inr resp"
  shows "(e = None \<longleftrightarrow> status_code resp = 200)
       \<and> (status_code resp \<noteq> 200 \<longrightarrow> e = Some (UnexpectedStatus (status_code resp)))
       \<and> error_message (UnexpectedStatus (status_code resp))
           = ''unexpected status code: '' @ fmt_d (status_code resp)"
  using upload_sent [OF assms(1)] assms(2) by simp

lemma fmt_d_500: "fmt_d 500 = ''500''"
  by (simp add: fmt_d_def digits.simps digit_def)

theorem upload_status_witness:
  "uploadClient_makeRequest (stub_world 500 ''x'' []) ''h'' [\<lparr>path = ''data/cats/a.jpg'', tag = ''cats''\<rparr>] 1000 0 41
     = Inr ([PostMultipart ''http://h/upload'' [(''username'', ''user42''), (''hashtags'', ''['' @ [CHR 0x22] @ ''cats'' @ [CHR 0x22] @ '']'')] ''a.jpg'' ''bytes''],
            Some (UnexpectedStatus 500))
   \<and> http (stub_world 500 ''x'' [])
        (PostMultipart ''http://h/upload'' [(''username'', ''user42''), (''hashtags'', ''['' @ [CHR 0x22] @ ''cats'' @ [CHR 0x22] @ '']'')] ''a.jpg'' ''bytes'')
     = Inr \<lparr>status_code = 500, read_body = Inr ''x''\<rparr>
   \<and> error_message (UnexpectedStatus 500) = ''unexpected status code: 500''
   \<and> uploadClient_makeRequest (stub_world 200 ''x'' []) ''h'' [\<lparr>path = ''data/cats/a.jpg'', tag = ''cats''\<rparr>] 1000 0 41
     = Inr ([PostMultipart ''http://h/upload'' [(''username'', ''user42''), (''hashtags'', ''['' @ [CHR 0x22] @ ''cats'' @ [CHR 0x22] @ '']'')] ''a.jpg'' ''bytes''],
            None)
   \<and> http (stub_world 200 ''x'' [])
        (PostMultipart ''http://h/upload'' [(''username'', ''user42''), (''hashtags'', ''['' @ [CHR 0x22] @ ''cats'' @ [CHR 0x22] @ '']'')] ''a.jpg'' ''bytes'')
     = Inr \<lparr>status_code = 200, read_body = Inr ''x''\<rparr>"
proof -
  let ?w = "stub_world 500 ''x'' []"
  let ?ok = "stub_world 200 ''x'' []"
  let ?q = "PostMultipart ''http://h/upload'' [(''username'', ''user42''), (''hashtags'', ''['' @ [CHR 0x22] @ ''cats'' @ [CHR 0x22] @ '']'')] ''a.jpg'' ''bytes''"
  let ?imgs = "[\<lparr>path = ''data/cats/a.jpg'', tag = ''cats''\<rparr>]"
  have u: "fmt_d 42 = ''42''" by (simp add: fmt_d_def digits.simps digit_def)
  have a: "uploadClient_makeRequest ?w ''h'' ?imgs 1000 0 41 = Inr ([?q], Some (UnexpectedStatus 500))"
    by (simp add: uploadClient_makeRequest_def generateUser_def stub_world_def intn_def base_def
        int64_add_def wrap64_def u)
  have b: "http ?w ?q = Inr \<lparr>status_code = 500, read_body = Inr ''x''\<rparr>"
    by (simp add: stub_world_def)
  from upload_status [OF a b]
  have "error_message (UnexpectedStatus 500) = ''unexpected status code: '' @ fmt_d 500" by simp
  then have c: "error_message (UnexpectedStatus 500) = ''unexpected status code: 500''"
    by (simp only: fmt_d_500) simp
  have b': "http ?ok ?q = Inr \<lparr>status_code = 200, read_body = Inr ''x''\<rparr>"
    by (simp add: stub_world_def)
  obtain e where a0: "uploadClient_makeRequest ?ok ''h'' ?imgs 1000 0 41 = Inr ([?q], e)"
    by (simp add: uploadClient_makeRequest_def generateUser_def stub_world_def intn_def base_def
        int64_add_def wrap64_def u)
  from upload_status [OF a0 b'] have "e = None" by simp
  with a0 have a': "uploadClient_makeRequest ?ok ''h'' ?imgs 1000 0 41 = Inr ([?q], None)" by simp
  from a b c a' b' show ?thesis by (intro conjI)
qed

subsection \<open>The invariants of the ring\<close>

text \<open>
  Claim C6.  From the empty ring \<^verbatim>\<open>make(chan string, 1000)\<close>, after any interleaving of
  the sends of the search calls and the receives and sends of the download calls, and
  after any run of whole calls of the two clients, the ring holds at most 1000
  identifiers.  A send to a full ring returns at
  once with the ring unchanged, the item dropped, and it ends the loop of the search
  client, which drops the rest of its list.
\<close>

theorem ring_never_exceeds_capacity:
  "(\<forall>s. ring_acts \<lparr>ring = make_chan 1000, held = []\<rparr> acts = Some s \<longrightarrow> length (buf (ring s)) \<le> 1000)
   \<and> (\<forall>ch'. run_calls host tags cs (make_chan 1000) = Inr ch' \<longrightarrow> length (buf ch') \<le> 1000)
   \<and> (\<forall>ch x. cap ch \<le> length (buf ch) \<longrightarrow> try_send ch x = (ch, False))
   \<and> (\<forall>ch thumb thumbnails. cap ch \<le> length (buf ch) \<longrightarrow> feed ch (thumb # thumbnails) = ch)"
proof -
  have i: "length (buf (make_chan 1000)) \<le> cap (make_chan 1000)" and c: "cap (make_chan 1000) = 1000"
    by (simp_all add: make_chan_def)
  have 1: "\<forall>s. ring_acts \<lparr>ring = make_chan 1000, held = []\<rparr> acts = Some s \<longrightarrow> length (buf (ring s)) \<le> 1000"
  proof (intro allI impI)
    fix s assume "ring_acts \<lparr>ring = make_chan 1000, held = []\<rparr> acts = Some s"
    from ring_acts_invariant [OF this, of "{}"] i c show "length (buf (ring s)) \<le> 1000"
      by (simp add: make_chan_def)
  qed
  have 2: "\<forall>ch'. run_calls host tags cs (make_chan 1000) = Inr ch' \<longrightarrow> length (buf ch') \<le> 1000"
  proof (intro allI impI)
    fix ch' assume "run_calls host tags cs (make_chan 1000) = Inr ch'"
    from run_calls_bounded [OF this i] c show "length (buf ch') \<le> 1000" by simp
  qed
  have 3: "\<forall>ch x. cap ch \<le> length (buf ch) \<longrightarrow> try_send ch x = (ch, False)"
    by (simp add: try_send_full)
  have 4: "\<forall>ch thumb thumbnails. cap ch \<le> length (buf ch) \<longrightarrow> feed ch (thumb # thumbnails) = ch"
    by (simp add: try_send_full)
  from 1 2 3 4 show ?thesis by (intro conjI)
qed

theorem ring_never_exceeds_capacity_witness:
  "run_calls ''h'' [[]] [SearchCall (stub_world 200 ''x'' [''/download/thumbnail_a'']) 0, DownloadCall (stub_world 200 ''x'' []) 5]
      (make_chan 1000)
     = Inr \<lparr>buf = [''/download/thumbnail_a''], cap = 1000\<rparr>
   \<and> length (buf \<lparr>buf = [''/download/thumbnail_a''], cap = 1000\<rparr>) \<le> 1000
   \<and> cap \<lparr>buf = [''a''], cap = 1\<rparr> \<le> length (buf \<lparr>buf = [''a''], cap = 1\<rparr>)
   \<and> try_send \<lparr>buf = [''a''], cap = 1\<rparr> ''b'' = (\<lparr>buf = [''a''], cap = 1\<rparr>, False)"
proof -
  let ?cs = "[SearchCall (stub_world 200 ''x'' [''/download/thumbnail_a'']) 0, DownloadCall (stub_world 200 ''x'' []) 5]"
  let ?ch = "\<lparr>buf = [''/download/thumbnail_a''], cap = 1000\<rparr>"
  let ?full = "\<lparr>buf = [''a''], cap = 1\<rparr>"
  note t = ring_never_exceeds_capacity [of "[]" "''h''" "[[]]" ?cs]
  have a: "run_calls ''h'' [[]] ?cs (make_chan 1000) = Inr ?ch"
    by (simp add: searchClient_makeRequest_def downloadClient_makeRequest_def stub_world_def
        make_chan_def try_send_def try_recv_def intn_def Let_def)
  from t a have b: "length (buf ?ch) \<le> 1000" by blast
  have f: "cap ?full \<le> length (buf ?full)" by simp
  from t f have d: "try_send ?full ''b'' = (?full, False)" by blast
  from a b f d show ?thesis by (intro conjI)
qed

text \<open>
  Claim C10.  After any run of calls of the two clients that starts with the empty ring,
  every identifier in the ring is one that a search call of the run decoded from its
  response; and under any interleaving of the operations of such calls, every
  identifier in the ring or held by a download call is one that a search call offered
  (each prefix of a run is a run, so this holds at every moment).  The download
  client puts back the identifier it popped as it popped it, when there is room, and
  applies the rewrite only to the address it requests.
\<close>

theorem ring_holds_only_search_results:
  "(\<forall>ch'. run_calls host tags cs (make_chan n) = Inr ch' \<longrightarrow> set (buf ch') \<subseteq> decoded_by host tags cs)
   \<and> (\<forall>s. ring_acts \<lparr>ring = make_chan n, held = []\<rparr> acts = Some s \<longrightarrow>
         set (buf (ring s)) \<union> set (held s) \<subseteq> set (offered acts))
   \<and> (\<forall>u rest. buf ch = u # rest \<and> u \<noteq> [] \<longrightarrow>
         buf (fst (downloadClient_makeRequest w host ch r)) = (if length rest < cap ch then rest @ [u] else rest)
       \<and> fst (snd (downloadClient_makeRequest w host ch r)) = [Get (''http://'' @ host @ rewrite_url r u)])"
proof -
  have 1: "\<forall>ch'. run_calls host tags cs (make_chan n) = Inr ch' \<longrightarrow> set (buf ch') \<subseteq> decoded_by host tags cs"
  proof (intro allI impI)
    fix ch' assume "run_calls host tags cs (make_chan n) = Inr ch'"
    from run_calls_origin [OF this] show "set (buf ch') \<subseteq> decoded_by host tags cs"
      by (simp add: make_chan_def)
  qed
  have 2: "\<forall>u rest. buf ch = u # rest \<and> u \<noteq> [] \<longrightarrow>
         buf (fst (downloadClient_makeRequest w host ch r)) = (if length rest < cap ch then rest @ [u] else rest)
       \<and> fst (snd (downloadClient_makeRequest w host ch r)) = [Get (''http://'' @ host @ rewrite_url r u)]"
    by (auto simp: download_ring download_requests try_send_def)
  have 3: "\<forall>s. ring_acts \<lparr>ring = make_chan n, held = []\<rparr> acts = Some s \<longrightarrow>
         set (buf (ring s)) \<union> set (held s) \<subseteq> set (offered acts)"
  proof (intro allI impI)
    fix s assume "ring_acts \<lparr>ring = make_chan n, held = []\<rparr> acts = Some s"
    from ring_acts_invariant [OF this, of "{}"]
    show "set (buf (ring s)) \<union> set (held s) \<subseteq> set (offered acts)"
      by (simp add: make_chan_def)
  qed
  from 1 3 2 show ?thesis by (intro conjI)
qed

theorem ring_holds_only_search_results_witness:
  "buf \<lparr>buf = [''/download/thumbnail_a'', ''/download/thumbnail_b''], cap = 1000\<rparr> = ''/download/thumbnail_a'' # [''/download/thumbnail_b'']
   \<and> ''/download/thumbnail_a'' \<noteq> []
   \<and> rewrite_url 0 ''/download/thumbnail_a'' = ''/download/a''
   \<and> buf (fst (downloadClient_makeRequest (stub_world 200 ''x'' []) ''h''
         \<lparr>buf = [''/download/thumbnail_a'', ''/download/thumbnail_b''], cap = 1000\<rparr> 0))
       = [''/download/thumbnail_b'', ''/download/thumbnail_a'']
   \<and> fst (snd (downloadClient_makeRequest (stub_world 200 ''x'' []) ''h''
         \<lparr>buf = [''/download/thumbnail_a'', ''/download/thumbnail_b''], cap = 1000\<rparr> 0))
       = [Get ''http://h/download/a'']
   \<and> run_calls ''h'' [[]] [SearchCall (stub_world 200 ''x'' [''/download/thumbnail_a'']) 0, DownloadCall (stub_world 200 ''x'' []) 0]
         (make_chan 1000)
       = Inr \<lparr>buf = [''/download/thumbnail_a''], cap = 1000\<rparr>
   \<and> set (buf \<lparr>buf = [''/download/thumbnail_a''], cap = 1000\<rparr>)
       \<subseteq> decoded_by ''h'' [[]] [SearchCall (stub_world 200 ''x'' [''/download/thumbnail_a'']) 0, DownloadCall (stub_world 200 ''x'' []) 0]"
proof -
  let ?ch = "\<lparr>buf = [''/download/thumbnail_a'', ''/download/thumbnail_b''], cap = 1000\<rparr>"
  let ?w = "stub_world 200 ''x'' []"
  let ?cs = "[SearchCall (stub_world 200 ''x'' [''/download/thumbnail_a'']) 0, DownloadCall (stub_world 200 ''x'' []) 0]"
  let ?end = "\<lparr>buf = [''/download/thumbnail_a''], cap = 1000\<rparr>"
  have a: "buf ?ch = ''/download/thumbnail_a'' # [''/download/thumbnail_b'']" by simp
  have b: "''/download/thumbnail_a'' \<noteq> []" by simp
  have c: "rewrite_url 0 ''/download/thumbnail_a'' = ''/download/a''"
    by (simp add: rewrite_url_def intn_def has_prefix_def trim_prefix_def)
  from ring_holds_only_search_results [of "''h''" "[]" "[]" 0 "[]" ?ch ?w 0] a b
  have d: "buf (fst (downloadClient_makeRequest ?w ''h'' ?ch 0))
             = (if length [''/download/thumbnail_b''] < cap ?ch then [''/download/thumbnail_b''] @ [''/download/thumbnail_a''] else [''/download/thumbnail_b''])
         \<and> fst (snd (downloadClient_makeRequest ?w ''h'' ?ch 0)) = [Get (''http://'' @ ''h'' @ rewrite_url 0 ''/download/thumbnail_a'')]"
    by blast
  from d have e: "buf (fst (downloadClient_makeRequest ?w ''h'' ?ch 0)) = [''/download/thumbnail_b'', ''/download/thumbnail_a'']"
    by simp
  from d have f: "fst (snd (downloadClient_makeRequest ?w ''h'' ?ch 0)) = [Get ''http://h/download/a'']"
    by (simp only: c) simp
  have g: "run_calls ''h'' [[]] ?cs (make_chan 1000) = Inr ?end"
    by (simp add: searchClient_makeRequest_def downloadClient_makeRequest_def stub_world_def
        make_chan_def try_send_def try_recv_def intn_def Let_def)
  have "\<forall>ch'. run_calls ''h'' [[]] ?cs (make_chan 1000) = Inr ch' \<longrightarrow> set (buf ch') \<subseteq> decoded_by ''h'' [[]] ?cs"
    using ring_holds_only_search_results [of "''h''" "[[]]" ?cs 1000 "[]" ?ch ?w 0] by (elim conjE)
  with g have h: "set (buf ?end) \<subseteq> decoded_by ''h'' [[]] ?cs" by blast
  from a b c e f g h show ?thesis by (intro conjI)
qed

subsection \<open>Paths\<close>

lemma split_slash_nonempty: "split_slash p \<noteq> []"
  by (induction p) (auto split: list.splits)

lemma split_slash_append:
  "split_slash (a @ CHR ''/'' # b) = split_slash a @ split_slash b"
proof (induction a)
  case Nil
  show ?case by simp
next
  case (Cons c a)
  obtain e es where s: "split_slash a = e # es"
    using split_slash_nonempty [of a] by (cases "split_slash a") auto
  show ?case using Cons s by simp
qed

lemma split_slash_plain: "CHR ''/'' \<notin> set a \<Longrightarrow> split_slash a = [a]"
  by (induction a) auto

lemma join_slash_snoc:
  "join_slash (ys @ [e]) = (if ys = [] then e else join_slash ys @ CHR ''/'' # e)"
  by (induction ys rule: join_slash.induct) auto

lemma base_last_element:
  assumes "name \<noteq> []" "CHR ''/'' \<notin> set name" "q = [] \<or> last q = CHR ''/''"
  shows "base (q @ name) = name"
proof -
  have "last name \<in> set name" using assms(1) by simp
  then have "last name \<noteq> CHR ''/''" using assms(2) by metis
  then have h: "hd (rev name) \<noteq> CHR ''/''" by (simp add: hd_rev)
  have d: "dropWhile (\<lambda>c. c = CHR ''/'') (rev name @ rev q) = rev name @ rev q"
    using assms(1) h by (cases "rev name") auto
  have t0: "takeWhile (\<lambda>c. c \<noteq> CHR ''/'') (rev q) = []"
  proof (cases "q = []")
    case True
    then show ?thesis by simp
  next
    case False
    with assms(3) have "hd (rev q) = CHR ''/''" by (simp add: hd_rev)
    moreover from False obtain c cs where "rev q = c # cs" by (cases "rev q") auto
    ultimately show ?thesis by simp
  qed
  have "takeWhile (\<lambda>c. c \<noteq> CHR ''/'') (rev name @ rev q) =
          rev name @ takeWhile (\<lambda>c. c \<noteq> CHR ''/'') (rev q)"
    using assms(2) by (intro takeWhile_append2) auto
  then have t: "takeWhile (\<lambda>c. c \<noteq> CHR ''/'') (rev name @ rev q) = rev name"
    using t0 by simp
  show ?thesis using assms(1) by (simp add: base_def d t)
qed

lemma dir_of_file:
  assumes "CHR ''/'' \<notin> set file"
  shows "dir (d @ CHR ''/'' # file) = clean (d @ [CHR ''/''])"
proof -
  have "dropWhile (\<lambda>c. c \<noteq> CHR ''/'') (rev file @ CHR ''/'' # rev d) = CHR ''/'' # rev d"
    using assms by (auto simp: dropWhile_append3)
  then show ?thesis by (simp add: dir_def)
qed

lemma clean_ends_with_name:
  assumes "name \<noteq> []" "name \<noteq> ''.''" "name \<noteq> ''..''" "CHR ''/'' \<notin> set name"
    and "pre = [] \<or> last pre = CHR ''/''"
  shows "\<exists>q. (q = [] \<or> last q = CHR ''/'') \<and> clean (pre @ name @ [CHR ''/'']) = q @ name"
proof -
  let ?p = "pre @ name @ [CHR ''/'']"
  let ?rooted = "hd ?p = CHR ''/''"
  have "\<exists>xs. split_slash ?p = xs @ [name, []]"
  proof (cases "pre = []")
    case True
    have "split_slash (name @ CHR ''/'' # []) = split_slash name @ split_slash []"
      by (rule split_slash_append)
    then show ?thesis using True assms(4) by (simp add: split_slash_plain)
  next
    case False
    with assms(5) obtain pre' where p: "pre = pre' @ [CHR ''/'']"
      by (metis append_butlast_last_id)
    have "split_slash (pre' @ CHR ''/'' # (name @ CHR ''/'' # [])) =
            split_slash pre' @ split_slash (name @ CHR ''/'' # [])"
      by (rule split_slash_append)
    also have "split_slash (name @ CHR ''/'' # []) = split_slash name @ split_slash []"
      by (rule split_slash_append)
    finally show ?thesis using p assms(4) by (simp add: split_slash_plain)
  qed
  then obtain xs where xs: "split_slash ?p = xs @ [name, []]" by blast
  define out0 where "out0 = fold (clean_elem ?rooted) xs []"
  have out: "fold (clean_elem ?rooted) (split_slash ?p) [] = name # out0"
    using assms(1-3) by (simp add: xs out0_def clean_elem_def)
  have ne: "?p \<noteq> []" by simp
  have c: "clean ?p = (if ?rooted then ''/'' else []) @ join_slash (rev out0 @ [name])"
    using assms(1) by (simp only: clean_def ne out Let_def if_False rev.simps join_slash_snoc) auto
  show ?thesis
  proof (cases "rev out0 = []")
    case True
    then have "clean ?p = (if ?rooted then ''/'' else []) @ name"
      using c by (simp add: join_slash_snoc)
    then show ?thesis by (intro exI [of _ "if ?rooted then ''/'' else []"]) simp
  next
    case False
    then have "clean ?p = ((if ?rooted then ''/'' else []) @ join_slash (rev out0) @ [CHR ''/'']) @ name"
      using c by (simp add: join_slash_snoc)
    then show ?thesis
      by (intro exI [of _ "(if ?rooted then ''/'' else []) @ join_slash (rev out0) @ [CHR ''/'']"]) simp
  qed
qed

lemma tag_is_parent_directory:
  assumes "name \<noteq> []" "name \<noteq> ''.''" "name \<noteq> ''..''" "CHR ''/'' \<notin> set name"
    and "CHR ''/'' \<notin> set file" and "pre = [] \<or> last pre = CHR ''/''"
  shows "base (dir (pre @ name @ CHR ''/'' # file)) = name"
proof -
  have "dir ((pre @ name) @ CHR ''/'' # file) = clean ((pre @ name) @ [CHR ''/''])"
    using assms(5) by (rule dir_of_file)
  then have d: "dir (pre @ name @ CHR ''/'' # file) = clean (pre @ name @ [CHR ''/''])" by simp
  obtain q where q: "q = [] \<or> last q = CHR ''/''" "clean (pre @ name @ [CHR ''/'']) = q @ name"
    using clean_ends_with_name [OF assms(1-4) assms(6)] by blast
  show ?thesis using base_last_element [OF assms(1) assms(4) q(1)] by (simp add: d q(2))
qed

lemma parent_of_a: "base (dir ''data/cats/a.jpg'') = ''cats''"
  by (simp add: dir_def base_def clean_def clean_elem_def)

lemma parent_of_b: "base (dir ''data/dogs/b.png'') = ''dogs''"
  by (simp add: dir_def base_def clean_def clean_elem_def)

subsection \<open>The workload catalog\<close>

lemma walk_fn_cases:
  "walk_fn images v =
     (case snd v of
        Inl m \<Rightarrow> (images, Some (IOError m))
      | Inr regular \<Rightarrow> (if image_file v then images @ [mk_image v] else images, None))"
  by (cases v; cases "snd v") (auto simp: walk_fn_def image_file_def mk_image_def Let_def)

lemma walk_no_error:
  "\<forall>v\<in>set visits. \<not> io_error v \<Longrightarrow>
   walk images visits = (images @ map mk_image (filter image_file visits), None)"
proof (induction visits arbitrary: images)
  case Nil
  show ?case by simp
next
  case (Cons v visits)
  from Cons.prems obtain regular where r: "snd v = Inr regular"
    by (cases "snd v") (auto simp: io_error_def)
  have "\<forall>v\<in>set visits. \<not> io_error v" using Cons.prems by simp
  note IH = Cons.IH [OF this]
  show ?case using r IH by (simp add: walk_fn_cases)
qed

lemma walk_first_error:
  "\<forall>v\<in>set pre. \<not> io_error v \<Longrightarrow>
   walk images (pre @ (p, Inl m) # post) = (images @ map mk_image (filter image_file pre), Some (IOError m))"
proof (induction pre arbitrary: images)
  case Nil
  show ?case by (simp add: walk_fn_cases)
next
  case (Cons v pre)
  from Cons.prems obtain regular where r: "snd v = Inr regular"
    by (cases "snd v") (auto simp: io_error_def)
  have "\<forall>v\<in>set pre. \<not> io_error v" using Cons.prems by simp
  note IH = Cons.IH [OF this]
  show ?case using r IH by (simp add: walk_fn_cases)
qed

lemma walk_shape:
  "(\<forall>v\<in>set visits. \<not> io_error v) \<and> walk [] visits = (map mk_image (filter image_file visits), None)
   \<or> (\<exists>pre p m post. visits = pre @ (p, Inl m) # post \<and> (\<forall>v\<in>set pre. \<not> io_error v)
        \<and> walk [] visits = (map mk_image (filter image_file pre), Some (IOError m)))"
proof (cases "\<exists>v\<in>set visits. io_error v")
  case False
  then have n: "\<forall>v\<in>set visits. \<not> io_error v" by blast
  from walk_no_error [OF n, of "[]"] n show ?thesis by simp
next
  case True
  then obtain pre v post where s: "visits = pre @ v # post" "io_error v" "\<forall>u\<in>set pre. \<not> io_error u"
    using split_list_first_prop [of visits io_error] by blast
  from s(2) obtain p m where v: "v = (p, Inl m)"
    by (cases v; cases "snd v") (auto simp: io_error_def)
  from walk_first_error [OF s(3), of "[]" p m post] s(1) s(3) v show ?thesis by auto
qed

lemma loadImages_no_error:
  assumes "\<forall>v\<in>set visits. \<not> io_error v"
  shows "loadImages visits =
     (map mk_image (filter image_file visits),
      if filter image_file visits = [] then Some NoFixturesFound else None)"
  using walk_no_error [OF assms, of "[]"] by (simp add: loadImages_def)

lemma loadImages_first_error:
  assumes "\<forall>v\<in>set pre. \<not> io_error v"
  shows "loadImages (pre @ (p, Inl m) # post) = (map mk_image (filter image_file pre), Some (IOError m))"
  using walk_first_error [OF assms, of "[]" p m post] by (simp add: loadImages_def)

lemma loadImages_NoFixturesFound:
  "snd (loadImages visits) = Some NoFixturesFound \<longleftrightarrow> (\<forall>v\<in>set visits. \<not> io_error v \<and> \<not> image_file v)"
proof (cases "\<exists>v\<in>set visits. io_error v")
  case False
  then have n: "\<forall>v\<in>set visits. \<not> io_error v" by blast
  show ?thesis using n by (auto simp: loadImages_no_error [OF n] filter_empty_conv)
next
  case True
  then obtain pre v post where s: "visits = pre @ v # post" "io_error v" "\<forall>u\<in>set pre. \<not> io_error u"
    using split_list_first_prop [of visits io_error] by blast
  from s(2) obtain p m where v: "v = (p, Inl m)"
    by (cases v; cases "snd v") (auto simp: io_error_def)
  have "snd (loadImages visits) = Some (IOError m)"
    using loadImages_first_error [OF s(3), of p m post] s(1) v by simp
  then show ?thesis using True by auto
qed

lemma loadImages_tags: "\<forall>img\<in>set (fst (loadImages visits)). tag img = base (dir (path img))"
proof -
  have f: "fst (loadImages visits) = fst (walk [] visits)"
    by (simp add: loadImages_def split: prod.splits)
  from walk_shape [of visits] obtain vs where "fst (walk [] visits) = map mk_image vs"
    by (metis fst_conv)
  with f show ?thesis by (auto simp: mk_image_def)
qed

text \<open>
  Claim C4.  \<^verbatim>\<open>loadImages\<close> returns the error ``no image files found'' exactly when the
  walk presents no I/O error and no matching file, a matching file being a regular file
  whose extension is \<^verbatim>\<open>.jpg\<close>, \<^verbatim>\<open>.jpeg\<close>, \<^verbatim>\<open>.gif\<close> or \<^verbatim>\<open>.png\<close>.  When the walk presents
  an I/O error, \<^verbatim>\<open>loadImages\<close> returns the first one as it is, with the images found
  before it.  Without an I/O error the images are those of the matching files, in order.
  The tag of every image is the base of the directory of its path, which for a path
  \<^verbatim>\<open>.../name/file\<close> is \<^verbatim>\<open>name\<close>, the directory the file lies in.
\<close>

theorem loadImages_result:
  "(snd (loadImages visits) = Some NoFixturesFound \<longleftrightarrow> (\<forall>v\<in>set visits. \<not> io_error v \<and> \<not> image_file v))
   \<and> (\<forall>pre p m post. visits = pre @ (p, Inl m) # post \<and> (\<forall>v\<in>set pre. \<not> io_error v) \<longrightarrow>
         loadImages visits = (map mk_image (filter image_file pre), Some (IOError m)))
   \<and> ((\<forall>v\<in>set visits. \<not> io_error v) \<longrightarrow> fst (loadImages visits) = map mk_image (filter image_file visits))
   \<and> (\<forall>img\<in>set (fst (loadImages visits)). tag img = base (dir (path img)))
   \<and> (\<forall>pre name file.
         (pre = [] \<or> last pre = CHR ''/'') \<and> name \<noteq> [] \<and> name \<noteq> ''.'' \<and> name \<noteq> ''..''
         \<and> CHR ''/'' \<notin> set name \<and> CHR ''/'' \<notin> set file \<longrightarrow>
         tag (mk_image (pre @ name @ CHR ''/'' # file, Inr True)) = name)"
proof -
  have 2: "\<forall>pre p m post. visits = pre @ (p, Inl m) # post \<and> (\<forall>v\<in>set pre. \<not> io_error v) \<longrightarrow>
         loadImages visits = (map mk_image (filter image_file pre), Some (IOError m))"
    using loadImages_first_error by blast
  have 3: "(\<forall>v\<in>set visits. \<not> io_error v) \<longrightarrow> fst (loadImages visits) = map mk_image (filter image_file visits)"
    using loadImages_no_error [of visits] by simp
  have 5: "\<forall>pre name file.
         (pre = [] \<or> last pre = CHR ''/'') \<and> name \<noteq> [] \<and> name \<noteq> ''.'' \<and> name \<noteq> ''..''
         \<and> CHR ''/'' \<notin> set name \<and> CHR ''/'' \<notin> set file \<longrightarrow>
         tag (mk_image (pre @ name @ CHR ''/'' # file, Inr True)) = name"
    using tag_is_parent_directory by (simp add: mk_image_def)
  from loadImages_NoFixturesFound [of visits] 2 3 loadImages_tags [of visits] 5
  show ?thesis by (intro conjI)
qed

theorem loadImages_result_witness:
  "\<not> io_error (''data'', Inr False) \<and> \<not> image_file (''data'', Inr False)
   \<and> \<not> io_error (''data/notes.txt'', Inr True) \<and> \<not> image_file (''data/notes.txt'', Inr True)
   \<and> snd (loadImages [(''data'', Inr False), (''data/notes.txt'', Inr True)]) = Some NoFixturesFound
   \<and> loadImages [(''data'', Inr False), (''data/cats'', Inl ''permission denied''), (''data/dogs/b.png'', Inr True)]
       = ([], Some (IOError ''permission denied''))
   \<and> tag (mk_image (''data/cats/a.jpg'', Inr True)) = ''cats''
   \<and> fst (loadImages [(''data'', Inr False), (''data/cats'', Inr False), (''data/cats/a.jpg'', Inr True),
                       (''data/dogs'', Inr False), (''data/dogs/b.png'', Inr True)])
       = [\<lparr>path = ''data/cats/a.jpg'', tag = ''cats''\<rparr>, \<lparr>path = ''data/dogs/b.png'', tag = ''dogs''\<rparr>]"
proof -
  let ?V = "[(''data'', Inr False), (''data/notes.txt'', Inr True)]"
  let ?E = "[(''data'', Inr False), (''data/cats'', Inl ''permission denied''), (''data/dogs/b.png'', Inr True)]"
  let ?D = "[(''data'', Inr False), (''data/cats'', Inr False), (''data/cats/a.jpg'', Inr True),
             (''data/dogs'', Inr False), (''data/dogs/b.png'', Inr True)]"
  have a: "\<not> io_error (''data'', Inr False)" "\<not> io_error (''data/notes.txt'', Inr True)"
    by (simp_all add: io_error_def)
  have b: "\<not> image_file (''data'', Inr False)" "\<not> image_file (''data/notes.txt'', Inr True)"
    by (simp_all add: image_file_def ext_def)
  have "snd (loadImages ?V) = Some NoFixturesFound \<longleftrightarrow> (\<forall>v\<in>set ?V. \<not> io_error v \<and> \<not> image_file v)"
    using loadImages_result [of ?V] by (elim conjE)
  then have c: "snd (loadImages ?V) = Some NoFixturesFound" using a b by simp
  have "\<forall>pre p m post. ?E = pre @ (p, Inl m) # post \<and> (\<forall>v\<in>set pre. \<not> io_error v) \<longrightarrow>
         loadImages ?E = (map mk_image (filter image_file pre), Some (IOError m))"
    using loadImages_result [of ?E] by (elim conjE)
  then have "?E = [(''data'', Inr False)] @ (''data/cats'', Inl ''permission denied'') # [(''data/dogs/b.png'', Inr True)]
      \<and> (\<forall>v\<in>set [(''data'', Inr False)]. \<not> io_error v) \<longrightarrow>
         loadImages ?E = (map mk_image (filter image_file [(''data'', Inr False)]), Some (IOError ''permission denied''))"
    by blast
  then have d: "loadImages ?E = ([], Some (IOError ''permission denied''))"
    using a b by simp
  have "\<forall>pre name file.
         (pre = [] \<or> last pre = CHR ''/'') \<and> name \<noteq> [] \<and> name \<noteq> ''.'' \<and> name \<noteq> ''..''
         \<and> CHR ''/'' \<notin> set name \<and> CHR ''/'' \<notin> set file \<longrightarrow>
         tag (mk_image (pre @ name @ CHR ''/'' # file, Inr True)) = name"
    using loadImages_result [of "[]"] by (elim conjE)
  then have "(''data/'' = [] \<or> last ''data/'' = CHR ''/'') \<and> ''cats'' \<noteq> [] \<and> ''cats'' \<noteq> ''.'' \<and> ''cats'' \<noteq> ''..''
         \<and> CHR ''/'' \<notin> set ''cats'' \<and> CHR ''/'' \<notin> set ''a.jpg'' \<longrightarrow>
         tag (mk_image (''data/'' @ ''cats'' @ CHR ''/'' # ''a.jpg'', Inr True)) = ''cats''"
    by blast
  then have e: "tag (mk_image (''data/cats/a.jpg'', Inr True)) = ''cats''" by simp
  have n: "\<forall>v\<in>set ?D. \<not> io_error v" by (simp add: io_error_def)
  have "(\<forall>v\<in>set ?D. \<not> io_error v) \<longrightarrow> fst (loadImages ?D) = map mk_image (filter image_file ?D)"
    using loadImages_result [of ?D] by (elim conjE)
  with n have "fst (loadImages ?D) = map mk_image (filter image_file ?D)" by (rule rev_mp)
  also have "filter image_file ?D = [(''data/cats/a.jpg'', Inr True), (''data/dogs/b.png'', Inr True)]"
    by (simp add: image_file_def ext_def)
  finally have f: "fst (loadImages ?D)
       = [\<lparr>path = ''data/cats/a.jpg'', tag = ''cats''\<rparr>, \<lparr>path = ''data/dogs/b.png'', tag = ''dogs''\<rparr>]"
    by (simp add: mk_image_def parent_of_a parent_of_b)
  from a(1) b(1) a(2) b(2) c d e f show ?thesis by (intro conjI)
qed

subsection \<open>The rate-limited dispatcher\<close>

lemma sdiv_nonneg: "0 \<le> a \<Longrightarrow> 0 < b \<Longrightarrow> a sdiv b = a div (b::int)"
  by (simp add: signed_divide_int_def sgn_if)

lemma percent_in_rampup:
  assumes "0 < rampup" "0 \<le> elapsed" "elapsed \<le> rampup" "rampup * 100 < 2 ^ 63"
  shows "percent_elapsed rampup elapsed = elapsed * 100 div rampup"
    and "0 \<le> percent_elapsed rampup elapsed"
    and "percent_elapsed rampup elapsed \<le> 100"
proof -
  have m: "int64_mul elapsed 100 = elapsed * 100"
    using assms by (simp add: int64_mul_def wrap64_id)
  have s: "(elapsed * 100) sdiv rampup = elapsed * 100 div rampup"
    using assms by (simp add: sdiv_nonneg)
  have lo: "0 \<le> elapsed * 100 div rampup"
    using assms by (simp add: pos_imp_zdiv_nonneg_iff)
  have "elapsed * 100 div rampup \<le> rampup * 100 div rampup"
    using assms by (intro zdiv_mono1) simp_all
  then have hi: "elapsed * 100 div rampup \<le> 100" using assms(1) by simp
  have w: "wrap64 (elapsed * 100 div rampup) = elapsed * 100 div rampup"
    using lo hi by (intro wrap64_id) simp_all
  show "percent_elapsed rampup elapsed = elapsed * 100 div rampup"
    by (simp add: percent_elapsed_def int64_div_def m s w)
  then show "0 \<le> percent_elapsed rampup elapsed" "percent_elapsed rampup elapsed \<le> 100"
    using lo hi by simp_all
qed

lemma tick_in_rampup:
  assumes "0 < rampup" "elapsed \<le> rampup"
  shows "loadTest_tick name rampup False elapsed r ready =
     (if int (intn r 100) > percent_elapsed rampup elapsed then Inr (False, [], Skipped)
      else Inr (False, [], if ready then Dispatched else Dropped))"
  using assms by (simp add: loadTest_tick_def percent_elapsed_def Let_def)

lemma filter_le_upt: "filter (\<lambda>d. d \<le> k) [0..<n] = [0..<min n (Suc k)]"
proof (induction n)
  case 0
  show ?case by simp
next
  case (Suc n)
  show ?case
  proof (cases "n \<le> k")
    case True
    then have m: "min n (Suc k) = n" "min (Suc n) (Suc k) = Suc n" by simp_all
    show ?thesis using Suc True by (simp add: m)
  next
    case False
    then have m: "min n (Suc k) = Suc k" "min (Suc n) (Suc k) = Suc k" by simp_all
    show ?thesis using Suc False by (simp add: m)
  qed
qed

lemma admitting_draws_eq:
  assumes "0 < rampup" "0 \<le> elapsed" "elapsed \<le> rampup" "rampup * 100 < 2 ^ 63"
  shows "admitting_draws name rampup elapsed = min 100 (nat (percent_elapsed rampup elapsed) + 1)"
proof -
  let ?p = "percent_elapsed rampup elapsed"
  have p0: "0 \<le> ?p" using assms by (rule percent_in_rampup)
  have "filter (\<lambda>d. loadTest_tick name rampup False elapsed d True = Inr (False, [], Dispatched)) [0..<100]
      = filter (\<lambda>d. d \<le> nat ?p) [0..<100]"
  proof (rule filter_cong [OF refl])
    fix d assume "d \<in> set [0..<100]"
    then have d: "intn d 100 = d" by (simp add: intn_def)
    show "(loadTest_tick name rampup False elapsed d True = Inr (False, [], Dispatched)) = (d \<le> nat ?p)"
      using p0 by (auto simp: tick_in_rampup [OF assms(1) assms(3)] d)
  qed
  then show ?thesis by (simp add: admitting_draws_def filter_le_upt)
qed

lemma requests_started_Skipped: "requests_started (Skipped # as) = requests_started as"
  by (simp add: requests_started_def)

text \<open>
  Claim C2, as the code has it.  During the ramp-up (\<open>0 \<le> elapsed \<le> rampup\<close>, the
  product \<open>rampup * 100\<close> fitting a \<^verbatim>\<open>Duration\<close>) a tick computes the whole number
  \<open>percent = elapsed * 100 div rampup\<close> and is skipped exactly when the value drawn from
  \<open>0..99\<close> is greater than \<open>percent\<close>; so \<open>min 100 (percent + 1)\<close> of the hundred
  values admit it, not \<open>percent\<close> of them.  A tick that is skipped never reaches the send
  on \<^verbatim>\<open>requestChan\<close>: it starts no request, and no report comes of it.
\<close>

theorem rampup_admission:
  assumes "0 < rampup" "0 \<le> elapsed" "elapsed \<le> rampup" "rampup * 100 < 2 ^ 63"
  shows "percent_elapsed rampup elapsed = elapsed * 100 div rampup
       \<and> (\<forall>r ready. loadTest_tick name rampup False elapsed r ready =
             (if int (intn r 100) > percent_elapsed rampup elapsed then Inr (False, [], Skipped)
              else Inr (False, [], if ready then Dispatched else Dropped)))
       \<and> admitting_draws name rampup elapsed = min 100 (nat (percent_elapsed rampup elapsed) + 1)
       \<and> (\<forall>as. requests_started (Skipped # as) = requests_started as)"
proof -
  have 1: "percent_elapsed rampup elapsed = elapsed * 100 div rampup"
    using assms by (rule percent_in_rampup)
  have 2: "\<forall>r ready. loadTest_tick name rampup False elapsed r ready =
             (if int (intn r 100) > percent_elapsed rampup elapsed then Inr (False, [], Skipped)
              else Inr (False, [], if ready then Dispatched else Dropped))"
    using tick_in_rampup [OF assms(1) assms(3)] by blast
  have 3: "admitting_draws name rampup elapsed = min 100 (nat (percent_elapsed rampup elapsed) + 1)"
    using assms by (rule admitting_draws_eq)
  have 4: "\<forall>as. requests_started (Skipped # as) = requests_started as"
    by (simp add: requests_started_Skipped)
  from 1 2 3 4 show ?thesis by (intro conjI)
qed

theorem rampup_admission_witness:
  "(0::int) < 120000000000 \<and> (0::int) \<le> 60000000000 \<and> (60000000000::int) \<le> 120000000000
   \<and> (120000000000::int) * 100 < 2 ^ 63
   \<and> percent_elapsed 120000000000 60000000000 = 50
   \<and> admitting_draws ''ui'' 120000000000 60000000000 = 51
   \<and> loadTest_tick ''ui'' 120000000000 False 60000000000 51 True = Inr (False, [], Skipped)
   \<and> loadTest_tick ''ui'' 120000000000 False 60000000000 50 True = Inr (False, [], Dispatched)"
proof -
  have h: "(0::int) < 120000000000" "(0::int) \<le> 60000000000" "(60000000000::int) \<le> 120000000000"
    "(120000000000::int) * 100 < 2 ^ 63" by simp_all
  note t = rampup_admission [OF h, of "''ui''"]
  from t have p: "percent_elapsed 120000000000 60000000000 = 50" by simp
  from t have "admitting_draws ''ui'' 120000000000 60000000000
      = min 100 (nat (percent_elapsed 120000000000 60000000000) + 1)" by (elim conjE)
  then have a: "admitting_draws ''ui'' 120000000000 60000000000 = 51" by (simp add: p)
  from t have k: "\<forall>r ready. loadTest_tick ''ui'' 120000000000 False 60000000000 r ready =
             (if int (intn r 100) > percent_elapsed 120000000000 60000000000 then Inr (False, [], Skipped)
              else Inr (False, [], if ready then Dispatched else Dropped))" by (elim conjE)
  have s: "loadTest_tick ''ui'' 120000000000 False 60000000000 51 True = Inr (False, [], Skipped)"
    by (simp add: k p intn_def)
  have d: "loadTest_tick ''ui'' 120000000000 False 60000000000 50 True = Inr (False, [], Dispatched)"
    by (simp add: k p intn_def)
  from h p a s d show ?thesis by (intro conjI)
qed

text \<open>
  Claim C2 as stated fails at the first instant of a ramp-up of two minutes: the
  percentage is 0, yet the value 0 of the draw admits the tick, one value of the hundred.
\<close>

theorem rampup_admission_counterexample:
  "percent_elapsed 120000000000 0 = 0
   \<and> loadTest_tick ''ui'' 120000000000 False 0 0 True = Inr (False, [], Dispatched)
   \<and> admitting_draws ''ui'' 120000000000 0 = 1
   \<and> admitting_draws ''ui'' 120000000000 0 \<noteq> nat (percent_elapsed 120000000000 0)"
proof -
  have p: "percent_elapsed 120000000000 0 = 0"
    by (simp add: percent_elapsed_def int64_mul_def int64_div_def wrap64_def)
  have t: "loadTest_tick ''ui'' 120000000000 False 0 0 True = Inr (False, [], Dispatched)"
    using p by (simp add: loadTest_tick_def percent_elapsed_def intn_def)
  have "admitting_draws ''ui'' 120000000000 0 = min 100 (nat (percent_elapsed 120000000000 0) + 1)"
    by (rule admitting_draws_eq) simp_all
  then have a: "admitting_draws ''ui'' 120000000000 0 = 1" by (simp add: p)
  have n: "admitting_draws ''ui'' 120000000000 0 \<noteq> nat (percent_elapsed 120000000000 0)"
    by (simp add: a p)
  from p t a n show ?thesis by (intro conjI)
qed

subsection \<open>The process and the shutdown signal\<close>

lemma step_keeps_in_flight:
  assumes "step s a = Some s'" "worker_is s i InFlight" "a \<noteq> CallReturns i"
  shows "worker_is s' i InFlight"
proof (cases a)
  case MainCloseDone
  with assms show ?thesis by (auto simp: worker_is_def split: if_splits)
next
  case MainReturn
  with assms show ?thesis by (auto simp: worker_is_def split: if_splits)
next
  case ReporterExit
  with assms show ?thesis by (auto simp: worker_is_def split: if_splits)
next
  case (Accept j)
  with assms show ?thesis
    by (auto simp: worker_is_def set_worker_def nth_list_update split: if_splits)
next
  case (ObserveDone j)
  with assms show ?thesis
    by (auto simp: worker_is_def set_worker_def nth_list_update split: if_splits)
next
  case (CallReturns j)
  with assms show ?thesis
    by (auto simp: worker_is_def set_worker_def nth_list_update split: if_splits)
next
  case (ReportTaken j)
  with assms show ?thesis
    by (auto simp: worker_is_def set_worker_def nth_list_update split: if_splits)
qed

lemma step_after_return: "main_returned s \<Longrightarrow> step s a = None"
  by (cases a) simp_all

text \<open>
  Claim C7, as the code has it.  No action of the process but the return of its own call
  takes a worker out of \<^verbatim>\<open>client.makeRequest\<close>: closing \<^verbatim>\<open>done\<close> interrupts nothing, a
  worker looks at \<^verbatim>\<open>done\<close> only while idle.  But \<^verbatim>\<open>main\<close> may return as soon as it has
  closed \<^verbatim>\<open>done\<close>, whatever the workers are doing, and once it has returned no goroutine
  takes another step: the process does not wait for the calls in flight.
\<close>

theorem shutdown_does_not_interrupt:
  "(\<forall>s a s' i. step s a = Some s' \<and> worker_is s i InFlight \<and> a \<noteq> CallReturns i \<longrightarrow> worker_is s' i InFlight)
   \<and> (\<forall>s. done_closed s \<and> \<not> main_returned s \<longrightarrow> step s MainReturn = Some (s\<lparr>main_returned := True\<rparr>))
   \<and> (\<forall>s a. main_returned s \<longrightarrow> step s a = None)"
proof -
  have 1: "\<forall>s a s' i. step s a = Some s' \<and> worker_is s i InFlight \<and> a \<noteq> CallReturns i \<longrightarrow> worker_is s' i InFlight"
    using step_keeps_in_flight by blast
  have 2: "\<forall>s. done_closed s \<and> \<not> main_returned s \<longrightarrow> step s MainReturn = Some (s\<lparr>main_returned := True\<rparr>)"
    by simp
  have 3: "\<forall>s a. main_returned s \<longrightarrow> step s a = None"
    using step_after_return by blast
  from 1 2 3 show ?thesis by (intro conjI)
qed

theorem shutdown_does_not_interrupt_witness:
  "step \<lparr>done_closed = False, main_returned = False, reporter_running = True, workers = [InFlight, Idle]\<rparr> MainCloseDone
     = Some \<lparr>done_closed = True, main_returned = False, reporter_running = True, workers = [InFlight, Idle]\<rparr>
   \<and> worker_is \<lparr>done_closed = False, main_returned = False, reporter_running = True, workers = [InFlight, Idle]\<rparr> 0 InFlight
   \<and> MainCloseDone \<noteq> CallReturns 0
   \<and> worker_is \<lparr>done_closed = True, main_returned = False, reporter_running = True, workers = [InFlight, Idle]\<rparr> 0 InFlight
   \<and> step \<lparr>done_closed = True, main_returned = False, reporter_running = True, workers = [InFlight, Idle]\<rparr> MainReturn
     = Some \<lparr>done_closed = True, main_returned = True, reporter_running = True, workers = [InFlight, Idle]\<rparr>
   \<and> step \<lparr>done_closed = True, main_returned = True, reporter_running = True, workers = [InFlight, Idle]\<rparr> (CallReturns 0)
     = None"
proof -
  let ?s0 = "\<lparr>done_closed = False, main_returned = False, reporter_running = True, workers = [InFlight, Idle]\<rparr>"
  let ?s1 = "\<lparr>done_closed = True, main_returned = False, reporter_running = True, workers = [InFlight, Idle]\<rparr>"
  let ?s2 = "\<lparr>done_closed = True, main_returned = True, reporter_running = True, workers = [InFlight, Idle]\<rparr>"
  note t = shutdown_does_not_interrupt
  have a: "step ?s0 MainCloseDone = Some ?s1" by simp
  have b: "worker_is ?s0 0 InFlight" by (simp add: worker_is_def)
  have c: "MainCloseDone \<noteq> CallReturns 0" by simp
  from t a b c have d: "worker_is ?s1 0 InFlight" by blast
  have "done_closed ?s1 \<and> \<not> main_returned ?s1" by simp
  with t have "step ?s1 MainReturn = Some (?s1\<lparr>main_returned := True\<rparr>)" by blast
  then have e: "step ?s1 MainReturn = Some ?s2" by simp
  have "main_returned ?s2" by simp
  with t have f: "step ?s2 (CallReturns 0) = None" by blast
  from a b c d e f show ?thesis by (intro conjI)
qed

text \<open>
  Claim C7 as stated fails on a run of one worker that accepts a token before \<^verbatim>\<open>main\<close>
  closes \<^verbatim>\<open>done\<close> and returns: the process has ended and the call has not returned.
\<close>

theorem shutdown_wait_counterexample:
  "run (start 1) [Accept 0, MainCloseDone, MainReturn]
     = Some \<lparr>done_closed = True, main_returned = True, reporter_running = True, workers = [InFlight]\<rparr>
   \<and> worker_is \<lparr>done_closed = True, main_returned = True, reporter_running = True, workers = [InFlight]\<rparr> 0 InFlight"
  by (simp add: start_def worker_is_def set_worker_def)

subsection \<open>The tags of the search workload\<close>

lemma collectTags_loop_set:
  "set (collectTags_loop images tags seen) = set tags \<union> (tag ` set images - set seen)"
  by (induction images arbitrary: tags seen) auto

lemma collectTags_loop_distinct:
  "distinct tags \<Longrightarrow> set tags \<subseteq> insert [] (set seen) \<Longrightarrow> [] \<in> set tags \<Longrightarrow>
   ([] \<in> set seen \<or> [] \<notin> tag ` set images) \<Longrightarrow>
   distinct (collectTags_loop images tags seen)"
proof (induction images arbitrary: tags seen)
  case Nil
  then show ?case by simp
next
  case (Cons img images)
  show ?case
  proof (cases "tag img \<in> set seen")
    case True
    then show ?thesis using Cons.prems by (auto intro!: Cons.IH)
  next
    case False
    have "distinct (collectTags_loop images (tags @ [tag img]) (tag img # seen))"
      using Cons.prems False by (intro Cons.IH) auto
    then show ?thesis using False by simp
  qed
qed

lemma collectTags_loop_prefix: "\<exists>more. collectTags_loop images tags seen = tags @ more"
  by (induction images arbitrary: tags seen) (auto, metis append.assoc)

text \<open>
  \<^verbatim>\<open>collectTags\<close> returns the empty tag first and then the tags of the images, each
  once; so the search client, which \<^verbatim>\<open>main\<close> gives this list, always has a tag to draw.
\<close>

lemma collectTags_result:
  "set (collectTags images) = insert [] (tag ` set images)
   \<and> (\<exists>more. collectTags images = [] # more)
   \<and> ([] \<notin> tag ` set images \<longrightarrow> distinct (collectTags images))"
proof -
  have 1: "set (collectTags images) = insert [] (tag ` set images)"
    by (simp add: collectTags_def collectTags_loop_set)
  have 2: "\<exists>more. collectTags images = [] # more"
    using collectTags_loop_prefix [of images "[[]]" "[]"] by (simp add: collectTags_def)
  have 3: "[] \<notin> tag ` set images \<longrightarrow> distinct (collectTags images)"
    by (auto simp: collectTags_def intro!: collectTags_loop_distinct)
  from 1 2 3 show ?thesis by (intro conjI)
qed

lemma collectTags_example:
  "[] \<notin> tag ` set [\<lparr>path = ''data/cats/a.jpg'', tag = ''cats''\<rparr>, \<lparr>path = ''data/dogs/b.png'', tag = ''dogs''\<rparr>,
       \<lparr>path = ''data/cats/c.gif'', tag = ''cats''\<rparr>]
   \<and> collectTags [\<lparr>path = ''data/cats/a.jpg'', tag = ''cats''\<rparr>, \<lparr>path = ''data/dogs/b.png'', tag = ''dogs''\<rparr>,
       \<lparr>path = ''data/cats/c.gif'', tag = ''cats''\<rparr>] = [[], ''cats'', ''dogs'']
   \<and> distinct (collectTags [\<lparr>path = ''data/cats/a.jpg'', tag = ''cats''\<rparr>, \<lparr>path = ''data/dogs/b.png'', tag = ''dogs''\<rparr>,
       \<lparr>path = ''data/cats/c.gif'', tag = ''cats''\<rparr>])"
proof -
  let ?imgs = "[\<lparr>path = ''data/cats/a.jpg'', tag = ''cats''\<rparr>, \<lparr>path = ''data/dogs/b.png'', tag = ''dogs''\<rparr>,
       \<lparr>path = ''data/cats/c.gif'', tag = ''cats''\<rparr>]"
  have a: "[] \<notin> tag ` set ?imgs" by simp
  have b: "collectTags ?imgs = [[], ''cats'', ''dogs'']" by (simp add: collectTags_def)
  from collectTags_result [of ?imgs] a have c: "distinct (collectTags ?imgs)" by blast
  from a b c show ?thesis by (intro conjI)
qed

subsection \<open>The dispatcher never panics\<close>

lemma tick_total:
  "rampupDone \<or> rampup \<noteq> 0 \<Longrightarrow>
   \<exists>d ls a. loadTest_tick name rampup rampupDone elapsed r ready = Inr (d, ls, a) \<and> (d \<or> rampup \<noteq> 0)"
  by (auto simp: loadTest_tick_def Let_def)

lemma loadTest_loop_total:
  "rampupDone \<or> rampup \<noteq> 0 \<Longrightarrow> \<exists>out. loadTest_loop name rampup rampupDone evs = Inr out"
proof (induction evs arbitrary: rampupDone)
  case Nil
  show ?case by simp
next
  case (Cons ev evs)
  show ?case
  proof (cases ev)
    case DoneClosed
    then show ?thesis by simp
  next
    case (TickAt elapsed r ready)
    from tick_total [OF Cons.prems, of name elapsed r ready] obtain d ls a where
      t: "loadTest_tick name rampup rampupDone elapsed r ready = Inr (d, ls, a)" "d \<or> rampup \<noteq> 0"
      by blast
    from Cons.IH [OF t(2)] obtain out where "loadTest_loop name rampup d evs = Inr out" by blast
    then show ?thesis using TickAt t(1) by (cases out) simp
  qed
qed

text \<open>
  \<^verbatim>\<open>main\<close> starts \<^verbatim>\<open>loadTest\<close> only with a positive rate.  With a rate of at most one
  request per nanosecond the ticker's interval is positive, and the division by
  \<^verbatim>\<open>rampup\<close> is reached only while \<^verbatim>\<open>rampupDone\<close> is false, which it never is for a
  ramp-up of zero: the dispatcher does not panic.
\<close>

lemma loadTest_total:
  assumes "0 < rate" "rate \<le> 1000000000"
  shows "\<exists>out. loadTest name rate rampup evs = Inr out"
proof -
  have "1000000000 sdiv rate = 1000000000 div rate" using assms by (simp add: sdiv_nonneg)
  moreover have "0 < 1000000000 div rate"
    using assms by (simp add: pos_imp_zdiv_pos_iff)
  moreover have "1000000000 div rate \<le> 1000000000 div 1"
    using assms by (intro zdiv_mono2) simp_all
  ultimately have "0 < int64_div 1000000000 rate"
    by (simp add: int64_div_def wrap64_id)
  moreover obtain out where "loadTest_loop name rampup (rampup = 0) evs = Inr out"
    using loadTest_loop_total [of "rampup = 0" rampup name evs] by blast
  ultimately show ?thesis using assms(1) by (cases out) (simp add: loadTest_def)
qed

lemma loadTest_example:
  "(0::int) < 1 \<and> (1::int) \<le> 1000000000
   \<and> (\<exists>out. loadTest ''ui'' 1 0 [TickAt 0 0 True, DoneClosed] = Inr out)"
proof -
  have h: "(0::int) < 1" "(1::int) \<le> 1000000000" by simp_all
  from loadTest_total [OF h, of "''ui''" 0 "[TickAt 0 0 True, DoneClosed]"] h
  show ?thesis by (intro conjI)
qed

end
